theory Spec2Isabelle
  imports Complex_Main
begin

section \<open>Python floats\<close>

text \<open>
  The solver computes with Python floats. The bounds start at \<open>float("inf")\<close> and
  \<open>-float("inf")\<close>, so the two infinities are values of the model, and so is NaN, which
  \<open>inf - inf\<close> and \<open>inf / inf\<close> produce. Finite values are reals: rounding, overflow
  and the sign of zero are not modelled. Every comparison with NaN is false.
\<close>

datatype pyfloat = NaN | NInf | Fin real | PInf

datatype error = ZeroDivisionError | ValueError | IndexError | AttributeError

text \<open>\<open>a < b\<close> on floats.\<close>

fun flt :: "pyfloat \<Rightarrow> pyfloat \<Rightarrow> bool" where
  "flt NaN b = False"
| "flt NInf NaN = False"
| "flt NInf NInf = False"
| "flt NInf (Fin b) = True"
| "flt NInf PInf = True"
| "flt (Fin a) NaN = False"
| "flt (Fin a) NInf = False"
| "flt (Fin a) (Fin b) = (a < b)"
| "flt (Fin a) PInf = True"
| "flt PInf b = False"

text \<open>\<open>a <= b\<close> on floats.\<close>

fun fle :: "pyfloat \<Rightarrow> pyfloat \<Rightarrow> bool" where
  "fle NaN b = False"
| "fle NInf NaN = False"
| "fle NInf NInf = True"
| "fle NInf (Fin b) = True"
| "fle NInf PInf = True"
| "fle (Fin a) NaN = False"
| "fle (Fin a) NInf = False"
| "fle (Fin a) (Fin b) = (a \<le> b)"
| "fle (Fin a) PInf = True"
| "fle PInf NaN = False"
| "fle PInf NInf = False"
| "fle PInf (Fin b) = False"
| "fle PInf PInf = True"

text \<open>\<open>a > b\<close> and \<open>a >= b\<close>.\<close>

definition fgt :: "pyfloat \<Rightarrow> pyfloat \<Rightarrow> bool" where
  "fgt a b = flt b a"

definition fge :: "pyfloat \<Rightarrow> pyfloat \<Rightarrow> bool" where
  "fge a b = fle b a"

text \<open>\<open>a - b\<close>: the difference of two infinities of the same sign is NaN.\<close>

fun fsub :: "pyfloat \<Rightarrow> pyfloat \<Rightarrow> pyfloat" where
  "fsub NaN b = NaN"
| "fsub NInf NaN = NaN"
| "fsub NInf NInf = NaN"
| "fsub NInf (Fin b) = NInf"
| "fsub NInf PInf = NInf"
| "fsub (Fin a) NaN = NaN"
| "fsub (Fin a) NInf = PInf"
| "fsub (Fin a) (Fin b) = Fin (a - b)"
| "fsub (Fin a) PInf = NInf"
| "fsub PInf NaN = NaN"
| "fsub PInf NInf = PInf"
| "fsub PInf (Fin b) = PInf"
| "fsub PInf PInf = NaN"

text \<open>\<open>abs(a)\<close>.\<close>

fun fabs :: "pyfloat \<Rightarrow> pyfloat" where
  "fabs NaN = NaN"
| "fabs NInf = PInf"
| "fabs (Fin a) = Fin \<bar>a\<bar>"
| "fabs PInf = PInf"

text \<open>
  \<open>a / b\<close>: Python raises ZeroDivisionError when the divisor is zero, whatever the
  dividend; otherwise the quotient follows IEEE 754.
\<close>

fun fdiv :: "pyfloat \<Rightarrow> pyfloat \<Rightarrow> error + pyfloat" where
  "fdiv a (Fin b) =
     (if b = 0 then Inl ZeroDivisionError
      else Inr (case a of
                  NaN \<Rightarrow> NaN
                | NInf \<Rightarrow> (if 0 < b then NInf else PInf)
                | Fin x \<Rightarrow> Fin (x / b)
                | PInf \<Rightarrow> (if 0 < b then PInf else NInf)))"
| "fdiv a NaN = Inr NaN"
| "fdiv a NInf = Inr (case a of Fin x \<Rightarrow> Fin 0 | _ \<Rightarrow> NaN)"
| "fdiv a PInf = Inr (case a of Fin x \<Rightarrow> Fin 0 | _ \<Rightarrow> NaN)"

text \<open>
  The builtins \<open>min(a, b)\<close> and \<open>max(a, b)\<close> keep the first argument unless the second
  is strictly smaller (larger).
\<close>

definition py_min2 :: "pyfloat \<Rightarrow> pyfloat \<Rightarrow> pyfloat" where
  "py_min2 a b = (if flt b a then b else a)"

definition py_max2 :: "pyfloat \<Rightarrow> pyfloat \<Rightarrow> pyfloat" where
  "py_max2 a b = (if fgt b a then b else a)"

text \<open>
  \<open>min(iterable, key=f)\<close> scans from the left and replaces the running best only by a
  strictly smaller key; on an empty iterable it raises ValueError. \<open>max\<close> is symmetric.
\<close>

fun py_min_scan :: "('a \<Rightarrow> pyfloat) \<Rightarrow> 'a \<Rightarrow> 'a list \<Rightarrow> 'a" where
  "py_min_scan f best [] = best"
| "py_min_scan f best (y # ys) = py_min_scan f (if flt (f y) (f best) then y else best) ys"

definition py_min_key :: "('a \<Rightarrow> pyfloat) \<Rightarrow> 'a list \<Rightarrow> error + 'a" where
  "py_min_key f ys = (case ys of [] \<Rightarrow> Inl ValueError | y # rest \<Rightarrow> Inr (py_min_scan f y rest))"

fun py_max_scan :: "('a \<Rightarrow> pyfloat) \<Rightarrow> 'a \<Rightarrow> 'a list \<Rightarrow> 'a" where
  "py_max_scan f best [] = best"
| "py_max_scan f best (y # ys) = py_max_scan f (if fgt (f y) (f best) then y else best) ys"

definition py_max_key :: "('a \<Rightarrow> pyfloat) \<Rightarrow> 'a list \<Rightarrow> error + 'a" where
  "py_max_key f ys = (case ys of [] \<Rightarrow> Inl ValueError | y # rest \<Rightarrow> Inr (py_max_scan f y rest))"

section \<open>Gaps\<close>

text \<open>\<open>BnB._abs_gap\<close> and \<open>BnB._rel_gap\<close>.\<close>

definition BnB_abs_gap :: "pyfloat \<Rightarrow> pyfloat \<Rightarrow> pyfloat" where
  "BnB_abs_gap ub lb = fsub ub lb"

definition BnB_rel_gap :: "pyfloat \<Rightarrow> pyfloat \<Rightarrow> error + pyfloat" where
  "BnB_rel_gap ub lb = fdiv (fsub ub lb) (py_max2 (py_min2 (fabs ub) (fabs lb)) (Fin (1 / 10 ^ 16)))"

section \<open>Nodes\<close>

datatype NodeStatus = OPEN | PRUNED | FEASIBLE | PROCESSED

text \<open>
  A node of the tree. The region, the points and the values stored in the node's trace
  are the plug-ins' own types. \<open>n_x\<close> is \<open>None\<close> for Python's \<open>None\<close>; the trace is a
  dict, kept as an association list.
\<close>

record ('r, 'x, 't) Node =
  n_status :: NodeStatus
  n_region :: 'r
  n_level :: int
  n_x :: "'x option"
  n_lb :: pyfloat
  n_trace :: "(string \<times> 't) list"

text \<open>\<open>Node.__init__(region, level, x=None, lb=-inf)\<close>.\<close>

definition Node_init :: "'r \<Rightarrow> int \<Rightarrow> 'x option \<Rightarrow> pyfloat \<Rightarrow> ('r, 'x, 't) Node" where
  "Node_init rg lv xv lbv =
     \<lparr>n_status = OPEN, n_region = rg, n_level = lv, n_x = xv, n_lb = lbv, n_trace = []\<rparr>"

section \<open>Searching rules\<close>

datatype SearchingRule =
  BestFirstSearch | BreadthFirstSearch | DepthFirstSearch | WorstFirstSearch | RandomSearch

text \<open>\<open>list.pop(i)\<close> for an index \<open>i \<ge> 0\<close>: IndexError when out of range.\<close>

definition list_pop :: "'a list \<Rightarrow> nat \<Rightarrow> error + ('a \<times> 'a list)" where
  "list_pop q i =
     (if i < length q then Inr (q ! i, take i q @ drop (Suc i) q) else Inl IndexError)"

text \<open>Every rule appends on \<open>add\<close>.\<close>

definition SearchingRule_add ::
  "SearchingRule \<Rightarrow> ('r, 'x, 't) Node list \<Rightarrow> ('r, 'x, 't) Node \<Rightarrow> ('r, 'x, 't) Node list" where
  "SearchingRule_add rule q nd = q @ [nd]"

text \<open>
  \<open>get_next\<close> of the five rules. The argument \<open>r\<close> is the draw that \<open>random.randint\<close>
  takes from its generator; \<open>randint(0, len(queue) - 1)\<close> raises ValueError on an empty
  range and otherwise returns an index of the range, here \<open>r mod len(queue)\<close>.
\<close>

fun get_next ::
  "SearchingRule \<Rightarrow> nat \<Rightarrow> ('r, 'x, 't) Node list
     \<Rightarrow> error + (('r, 'x, 't) Node \<times> ('r, 'x, 't) Node list)" where
  "get_next BestFirstSearch r q =
     (case py_min_key (\<lambda>i. n_lb (q ! i)) [0..<length q] of
        Inl err \<Rightarrow> Inl err
      | Inr min_idx \<Rightarrow> list_pop q min_idx)"
| "get_next BreadthFirstSearch r q = list_pop q 0"
| "get_next DepthFirstSearch r q =
     (if q = [] then Inl IndexError else list_pop q (length q - 1))"
| "get_next WorstFirstSearch r q =
     (case py_max_key (\<lambda>i. n_lb (q ! i)) [0..<length q] of
        Inl err \<Rightarrow> Inl err
      | Inr min_idx \<Rightarrow> list_pop q min_idx)"
| "get_next RandomSearch r q =
     (if q = [] then Inl ValueError else list_pop q (r mod length q))"

section \<open>The solver's collaborators\<close>

datatype Status =
  RUNNING | OPTIMAL | RELATIVE_OPTIMAL | INFEASIBLE | UNBOUNDED
  | TIME_LIMIT | ITER_LIMIT | MEMORY_LIMIT | ERROR

text \<open>
  The problem, the bounding methods, the branching rule, the region factory, the clock
  and the random generator are abstract in the source. Each is a function on an
  environment \<open>'e\<close> (whatever state the plug-ins, the clock and the generator keep),
  which it may change. A plug-in that raises is outside the model. A bounding call
  mutates the node it is given: the model returns the node after the call.
\<close>

record ('e, 'r, 'x, 't) components =
  region_root_region :: "'e \<Rightarrow> 'e \<times> 'r"
  lb_method_initialize :: "'e \<Rightarrow> 'e"
  lb_method_bound :: "'e \<Rightarrow> ('r, 'x, 't) Node \<Rightarrow> 'e \<times> ('r, 'x, 't) Node"
  ub_method_initialize :: "'e \<Rightarrow> 'e"
  ub_method_bound :: "'e \<Rightarrow> ('r, 'x, 't) Node \<Rightarrow> 'e \<times> 'x option"
  branching_rule_initialize :: "'e \<Rightarrow> 'e"
  branching_rule_branch :: "'e \<Rightarrow> ('r, 'x, 't) Node \<Rightarrow> 'e \<times> ('r, 'x, 't) Node list"
  problem_is_feasible :: "'e \<Rightarrow> 'x option \<Rightarrow> pyfloat \<Rightarrow> 'e \<times> bool"
  problem_value :: "'e \<Rightarrow> 'x option \<Rightarrow> 'e \<times> pyfloat"
  time_time :: "'e \<Rightarrow> 'e \<times> pyfloat"
  random_draw :: "'e \<Rightarrow> 'e \<times> nat"

text \<open>The options of \<open>BnB.__init__\<close>. The progress display (\<open>verbose\<close>) is not modelled.\<close>

record config =
  keeptrace :: bool
  time_limit :: pyfloat
  node_limit :: int
  queue_limit :: int
  feas_tol :: pyfloat
  abs_gap_tol :: pyfloat
  rel_gap_tol :: pyfloat
  searching_rule :: SearchingRule

record 't trace_entry =
  te_node_count :: int
  te_timer :: pyfloat
  te_queue_size :: int
  te_best_ub :: pyfloat
  te_best_lb :: pyfloat
  te_node :: "(string \<times> 't) list"

text \<open>
  What one iteration does to the outside and to the node it visits, in order: the calls
  to the plug-ins and the assignments to \<open>node.status\<close>.
\<close>

datatype event =
  Call_get_next | Call_lb_bound | Set_status NodeStatus | Call_is_feasible
  | Call_ub_bound | Call_value | Call_branch | Call_time

text \<open>
  The attributes that \<open>solve\<close> sets on the solver. \<open>abs_gap\<close>, \<open>rel_gap\<close> and \<open>timer\<close>
  do not exist before the first iteration has set them. \<open>node\<close> is the local variable
  of the loop, \<open>events\<close> the log of what the iterations did.
\<close>

record ('r, 'x, 't) bnb =
  start_time :: pyfloat
  node_count :: int
  best_x :: "'x option"
  best_ub :: pyfloat
  best_lb :: pyfloat
  queue :: "('r, 'x, 't) Node list"
  trace :: "'t trace_entry list"
  status :: Status
  abs_gap :: "pyfloat option"
  rel_gap :: "pyfloat option"
  timer :: "pyfloat option"
  node :: "('r, 'x, 't) Node option"
  events :: "event list"

record ('x, 't) Result =
  r_status :: Status
  r_solution :: "'x option"
  r_objective_value :: pyfloat
  r_solve_time :: pyfloat
  r_iterations :: int
  r_trace :: "'t trace_entry list"

section \<open>One iteration of \<open>BnB.solve\<close>\<close>

text \<open>\<open>self.searching_rule.get_next(self.queue)\<close>; only the random rule draws.\<close>

definition searching_rule_get_next ::
  "config \<Rightarrow> ('e, 'r, 'x, 't) components \<Rightarrow> 'e \<Rightarrow> ('r, 'x, 't) Node list
     \<Rightarrow> 'e \<times> (error + (('r, 'x, 't) Node \<times> ('r, 'x, 't) Node list))" where
  "searching_rule_get_next C P e q =
     (if searching_rule C = RandomSearch \<and> q \<noteq> []
      then (let (e1, r) = random_draw P e in (e1, get_next RandomSearch r q))
      else (e, get_next (searching_rule C) 0 q))"

text \<open>
  Upper bound evaluation: the candidate point and its value. \<open>copy(node.x)\<close> is the
  same value as \<open>node.x\<close>.
\<close>

definition upper_bound_evaluation ::
  "config \<Rightarrow> ('e, 'r, 'x, 't) components \<Rightarrow> 'e \<Rightarrow> ('r, 'x, 't) Node
     \<Rightarrow> 'e \<times> 'x option \<times> pyfloat \<times> event list" where
  "upper_bound_evaluation C P e nd =
     (let (e1, feasible) = problem_is_feasible P e (n_x nd) (feas_tol C) in
      if feasible then (e1, n_x nd, n_lb nd, [Call_is_feasible])
      else (let (e2, xv) = ub_method_bound P e1 nd;
                (e3, ub) = problem_value P e2 xv
            in (e3, xv, ub, [Call_is_feasible, Call_ub_bound, Call_value])))"

text \<open>Upper bound update: a strictly better candidate becomes the incumbent and filters the queue.\<close>

definition upper_bound_update ::
  "('r, 'x, 't) bnb \<Rightarrow> ('r, 'x, 't) Node \<Rightarrow> 'x option \<Rightarrow> pyfloat
     \<Rightarrow> ('r, 'x, 't) bnb \<times> ('r, 'x, 't) Node \<times> event list" where
  "upper_bound_update s nd xv ub =
     (if flt ub (best_ub s)
      then (let s1 = s\<lparr>best_x := xv\<rparr>;
                s2 = s1\<lparr>best_ub := ub\<rparr>;
                s3 = s2\<lparr>queue := filter (\<lambda>qnode. fle (n_lb qnode) (best_ub s2)) (queue s2)\<rparr>
            in (s3, nd\<lparr>n_status := FEASIBLE\<rparr>, [Set_status FEASIBLE]))
      else (s, nd, []))"

text \<open>Branching operation: \<open>and\<close> evaluates the relative gap only when the absolute test holds.\<close>

definition branching_operation ::
  "config \<Rightarrow> ('e, 'r, 'x, 't) components \<Rightarrow> 'e \<Rightarrow> ('r, 'x, 't) bnb \<Rightarrow> ('r, 'x, 't) Node
     \<Rightarrow> error + ('e \<times> ('r, 'x, 't) bnb \<times> event list)" where
  "branching_operation C P e s nd =
     (if fgt (BnB_abs_gap (best_ub s) (n_lb nd)) (abs_gap_tol C)
      then (case BnB_rel_gap (best_ub s) (n_lb nd) of
              Inl err \<Rightarrow> Inl err
            | Inr rg \<Rightarrow>
                if fgt rg (rel_gap_tol C)
                then (let (e1, child_nodes) = branching_rule_branch P e nd
                      in Inr (e1, s\<lparr>queue := queue s @ child_nodes\<rparr>, [Call_branch]))
                else Inr (e, s, []))
      else Inr (e, s, []))"

text \<open>
  The visit of the dequeued node: lower bound evaluation, pruning test and, for a node
  that is not pruned, the three blocks above.
\<close>

definition visit ::
  "config \<Rightarrow> ('e, 'r, 'x, 't) components \<Rightarrow> 'e \<Rightarrow> ('r, 'x, 't) bnb \<Rightarrow> ('r, 'x, 't) Node
     \<Rightarrow> error + ('e \<times> ('r, 'x, 't) bnb \<times> ('r, 'x, 't) Node \<times> event list)" where
  "visit C P e s nd0 =
     (let (e1, nd1) = lb_method_bound P e nd0 in
      if fgt (n_lb nd1) (best_ub s)
      then Inr (e1, s, nd1\<lparr>n_status := PRUNED\<rparr>, [Call_lb_bound, Set_status PRUNED])
      else (let nd2 = nd1\<lparr>n_status := PROCESSED\<rparr>;
                (e2, xv, ub, ev_eval) = upper_bound_evaluation C P e1 nd2;
                (s3, nd3, ev_upd) = upper_bound_update s nd2 xv ub
            in case branching_operation C P e2 s3 nd3 of
                 Inl err \<Rightarrow> Inl err
               | Inr (e4, s4, ev_br) \<Rightarrow>
                   Inr (e4, s4, nd3,
                        [Call_lb_bound, Set_status PROCESSED] @ ev_eval @ ev_upd @ ev_br)))"

text \<open>Lower bound update.\<close>

definition lower_bound_update :: "('r, 'x, 't) bnb \<Rightarrow> ('r, 'x, 't) bnb" where
  "lower_bound_update s =
     (case map n_lb (queue s) of
        [] \<Rightarrow> s\<lparr>best_lb := best_ub s\<rparr>
      | v # vs \<Rightarrow> s\<lparr>best_lb := py_min_scan (\<lambda>a. a) v vs\<rparr>)"

text \<open>Trace update.\<close>

definition trace_update ::
  "config \<Rightarrow> ('r, 'x, 't) bnb \<Rightarrow> ('r, 'x, 't) Node \<Rightarrow> pyfloat \<Rightarrow> ('r, 'x, 't) bnb" where
  "trace_update C s nd t =
     (if keeptrace C
      then s\<lparr>trace := trace s @
             [\<lparr>te_node_count = node_count s, te_timer = t,
               te_queue_size = int (length (queue s)), te_best_ub = best_ub s,
               te_best_lb = best_lb s, te_node = n_trace nd\<rparr>]\<rparr>
      else s)"

text \<open>
  Status update: six independent tests in the order of the source, each assigning the
  status when it holds. \<open>t\<close>, \<open>ag\<close> and \<open>rg\<close> are the timer and the gaps the iteration
  has just stored.
\<close>

definition status_update ::
  "config \<Rightarrow> ('r, 'x, 't) bnb \<Rightarrow> pyfloat \<Rightarrow> pyfloat \<Rightarrow> pyfloat \<Rightarrow> ('r, 'x, 't) bnb" where
  "status_update C s t ag rg =
     (let s1 = (if fge t (time_limit C) then s\<lparr>status := TIME_LIMIT\<rparr> else s);
          s2 = (if node_limit C \<le> node_count s1 then s1\<lparr>status := ITER_LIMIT\<rparr> else s1);
          s3 = (if queue_limit C \<le> int (length (queue s2))
                then s2\<lparr>status := MEMORY_LIMIT\<rparr> else s2);
          s4 = (if fle ag (abs_gap_tol C) then s3\<lparr>status := RELATIVE_OPTIMAL\<rparr> else s3);
          s5 = (if fle rg (rel_gap_tol C) then s4\<lparr>status := RELATIVE_OPTIMAL\<rparr> else s4);
          s6 = (if length (queue s5) = 0 then s5\<lparr>status := OPTIMAL\<rparr> else s5)
      in s6)"

text \<open>The body of the main loop.\<close>

definition iteration ::
  "config \<Rightarrow> ('e, 'r, 'x, 't) components \<Rightarrow> 'e \<Rightarrow> ('r, 'x, 't) bnb
     \<Rightarrow> error + ('e \<times> ('r, 'x, 't) bnb)" where
  "iteration C P e s =
     (let (e0, nxt) = searching_rule_get_next C P e (queue s) in
      case nxt of
        Inl err \<Rightarrow> Inl err
      | Inr (nd0, q0) \<Rightarrow>
          (case visit C P e0 (s\<lparr>queue := q0\<rparr>) nd0 of
             Inl err \<Rightarrow> Inl err
           | Inr (e1, s1, nd, evs) \<Rightarrow>
               (let s2 = lower_bound_update s1;
                    ag = BnB_abs_gap (best_ub s2) (best_lb s2)
                in case BnB_rel_gap (best_ub s2) (best_lb s2) of
                     Inl err \<Rightarrow> Inl err
                   | Inr rg \<Rightarrow>
                       (let (e2, now) = time_time P e1;
                            t = fsub now (start_time s2);
                            s3 = s2\<lparr>node_count := node_count s2 + 1, abs_gap := Some ag,
                                    rel_gap := Some rg, timer := Some t\<rparr>;
                            s4 = trace_update C s3 nd t;
                            s5 = status_update C s4 t ag rg
                        in Inr (e2, s5\<lparr>node := Some nd,
                                       events := events s @ Call_get_next # evs @ [Call_time]\<rparr>)))))"

section \<open>\<open>BnB.solve\<close>\<close>

text \<open>The main loop may run forever: \<open>None\<close> is a run that does not return.\<close>

partial_function (option) main_loop ::
  "config \<Rightarrow> ('e, 'r, 'x, 't) components \<Rightarrow> 'e \<Rightarrow> ('r, 'x, 't) bnb
     \<Rightarrow> (error + ('e \<times> ('r, 'x, 't) bnb)) option" where
  "main_loop C P e s =
     (if status s = RUNNING
      then (case iteration C P e s of
              Inl err \<Rightarrow> Some (Inl err)
            | Inr (e', s') \<Rightarrow> main_loop C P e' s')
      else Some (Inr (e, s)))"

text \<open>The state when the loop is entered: the queue holds the root node.\<close>

definition initial ::
  "config \<Rightarrow> ('e, 'r, 'x, 't) components \<Rightarrow> 'e \<Rightarrow> 'e \<times> ('r, 'x, 't) bnb" where
  "initial C P e =
     (let (e0, t0) = time_time P e;
          s0 = \<lparr>start_time = t0, node_count = 0, best_x = None, best_ub = PInf,
                best_lb = NInf, queue = [], trace = [], status = RUNNING,
                abs_gap = None, rel_gap = None, timer = None, node = None, events = []\<rparr>;
          e1 = lb_method_initialize P e0;
          e2 = ub_method_initialize P e1;
          e3 = branching_rule_initialize P e2;
          (e4, rg) = region_root_region P e3;
          root = Node_init rg 0 None NInf
      in (e4, s0\<lparr>queue := SearchingRule_add (searching_rule C) (queue s0) root\<rparr>))"

text \<open>\<open>Result(...)\<close> reads \<open>self.timer\<close>, which only an iteration creates.\<close>

definition make_result :: "('r, 'x, 't) bnb \<Rightarrow> error + ('x, 't) Result" where
  "make_result s =
     (case timer s of
        None \<Rightarrow> Inl AttributeError
      | Some t \<Rightarrow>
          Inr \<lparr>r_status = status s, r_solution = best_x s, r_objective_value = best_ub s,
               r_solve_time = t, r_iterations = node_count s, r_trace = trace s\<rparr>)"

definition BnB_solve ::
  "config \<Rightarrow> ('e, 'r, 'x, 't) components \<Rightarrow> 'e
     \<Rightarrow> (error + ('x, 't) Result) option" where
  "BnB_solve C P e =
     (let (e4, s1) = initial C P e in
      case main_loop C P e4 s1 of
        None \<Rightarrow> None
      | Some (Inl err) \<Rightarrow> Some (Inl err)
      | Some (Inr (e5, s)) \<Rightarrow> Some (make_result s))"


text \<open>
  The state at the head of the loop after at most \<open>k\<close> turns: the loop stops before
  \<open>k\<close> turns when the status is no longer RUNNING.
\<close>

fun iterations ::
  "nat \<Rightarrow> config \<Rightarrow> ('e, 'r, 'x, 't) components \<Rightarrow> 'e \<Rightarrow> ('r, 'x, 't) bnb
     \<Rightarrow> error + ('e \<times> ('r, 'x, 't) bnb)" where
  "iterations 0 C P e s = Inr (e, s)"
| "iterations (Suc k) C P e s =
     (if status s = RUNNING
      then (case iteration C P e s of
              Inl err \<Rightarrow> Inl err
            | Inr (e', s') \<Rightarrow> iterations k C P e' s')
      else Inr (e, s))"

section \<open>Example instances\<close>

text \<open>
  A small instance on which the theorems below are evaluated: the environment is a counter
  that the clock advances, the lower bound of the root is 0 and of every other node 5,
  the heuristic point is 1 with objective value 1, and the root branches into one child.
\<close>

definition ex_config :: "pyfloat \<Rightarrow> config" where
  "ex_config tlim =
     \<lparr>keeptrace = True, time_limit = tlim, node_limit = 100, queue_limit = 100,
      feas_tol = Fin (1 / 10 ^ 8), abs_gap_tol = Fin (1 / 10 ^ 8),
      rel_gap_tol = Fin (1 / 10 ^ 8), searching_rule = BestFirstSearch\<rparr>"

definition ex_components ::
  "bool \<Rightarrow> ((unit, int, unit) Node \<Rightarrow> pyfloat) \<Rightarrow> (nat, unit, int, unit) components" where
  "ex_components feas child_lb =
     \<lparr>region_root_region = (\<lambda>e. (e, ())),
      lb_method_initialize = (\<lambda>e. e),
      lb_method_bound =
        (\<lambda>e nd. (e, nd\<lparr>n_x := Some 0, n_lb := (if n_level nd = 0 then Fin 0 else Fin 5)\<rparr>)),
      ub_method_initialize = (\<lambda>e. e),
      ub_method_bound = (\<lambda>e nd. (e, Some 1)),
      branching_rule_initialize = (\<lambda>e. e),
      branching_rule_branch =
        (\<lambda>e nd. (e, if n_level nd = 0
                      then [Node_init () (n_level nd + 1) (n_x nd) (child_lb nd)] else [])),
      problem_is_feasible = (\<lambda>e xv tol. (e, feas)),
      problem_value = (\<lambda>e xv. (e, case xv of None \<Rightarrow> PInf | Some v \<Rightarrow> Fin (real_of_int v))),
      time_time = (\<lambda>e. (Suc e, Fin (real e))),
      random_draw = (\<lambda>e. (e, 0))\<rparr>"

text \<open>A queue of four open nodes with lower bounds 5, 2, 8, 2, told apart by their levels.\<close>

definition ex_queue :: "(unit, int, unit) Node list" where
  "ex_queue = map (\<lambda>(lv, v). Node_init () lv None (Fin v)) [(1, 5), (2, 2), (3, 8), (4, 2)]"

text \<open>
  The state of the instance at the head of the loop, with a chosen incumbent value and
  a chosen queue.
\<close>

definition ex_state ::
  "pyfloat \<Rightarrow> (unit, int, unit) Node list \<Rightarrow> (unit, int, unit) bnb" where
  "ex_state ub q =
     (snd (initial (ex_config PInf) (ex_components True n_lb) 0))\<lparr>best_ub := ub, queue := q\<rparr>"

text \<open>
  The instance with an upper-bounding method that finds no point: the objective value of
  its candidate is \<open>+inf\<close>, as for an infeasible point of a MIP.
\<close>

definition ex_no_incumbent :: "(nat, unit, int, unit) components" where
  "ex_no_incumbent = (ex_components False n_lb)\<lparr>ub_method_bound := (\<lambda>e nd. (e, None))\<rparr>"


text \<open>A queue of two open nodes whose lower bounds are NaN and 1, in this order.\<close>

definition ex_nan_queue :: "(unit, int, unit) Node list" where
  "ex_nan_queue = [Node_init () 1 None NaN, Node_init () 2 None (Fin 1)]"

text \<open>
  The instance with a branching rule that gives the root two children, of lower bounds
  NaN and 1/2.
\<close>

definition ex_nan_children :: "(nat, unit, int, unit) components" where
  "ex_nan_children =
     (ex_components False n_lb)\<lparr>branching_rule_branch :=
        (\<lambda>e nd. (e, if n_level nd = 0
                      then [Node_init () 1 None NaN, Node_init () 1 None (Fin (1 / 2))]
                      else []))\<rparr>"


section \<open>Facts about the model\<close>

lemma py_min2_Fin: "py_min2 (Fin a) (Fin b) = Fin (min a b)"
  by (simp add: py_min2_def min_def)

lemma py_max2_Fin: "py_max2 (Fin a) (Fin b) = Fin (max a b)"
  by (simp add: py_max2_def fgt_def max_def)

text \<open>
  The denominator of the relative gap is built with \<open>abs\<close>, \<open>min\<close> and \<open>max\<close>, which
  do not round. It is never zero, so \<open>BnB._rel_gap\<close> never raises ZeroDivisionError.
\<close>

lemma rel_gap_denominator_nonzero:
  "py_max2 (py_min2 (fabs a) (fabs b)) (Fin (1 / 10 ^ 16)) \<noteq> Fin 0"
  by (cases a; cases b) (auto simp: py_max2_def py_min2_def fgt_def)

lemma fdiv_error: "fdiv a b = Inl err \<Longrightarrow> b = Fin 0"
  by (cases b) (auto split: if_splits)

lemma rel_gap_total: "\<exists>g. BnB_rel_gap a b = Inr g"
proof (cases "BnB_rel_gap a b")
  case (Inl err)
  then have "py_max2 (py_min2 (fabs a) (fabs b)) (Fin (1 / 10 ^ 16)) = Fin 0"
    unfolding BnB_rel_gap_def by (rule fdiv_error)
  with rel_gap_denominator_nonzero [of a b] show ?thesis by blast
next
  case (Inr g)
  then show ?thesis by simp
qed

lemma status_update_precedence:
  "status (status_update C s t ag rg) =
     (if queue s = [] then OPTIMAL
      else if fle rg (rel_gap_tol C) then RELATIVE_OPTIMAL
      else if fle ag (abs_gap_tol C) then RELATIVE_OPTIMAL
      else if queue_limit C \<le> int (length (queue s)) then MEMORY_LIMIT
      else if node_limit C \<le> node_count s then ITER_LIMIT
      else if fge t (time_limit C) then TIME_LIMIT
      else status s)"
  by (simp add: status_update_def Let_def)

lemma status_update_fields:
  "queue (status_update C s t ag rg) = queue s"
  "best_ub (status_update C s t ag rg) = best_ub s"
  "best_lb (status_update C s t ag rg) = best_lb s"
  "node_count (status_update C s t ag rg) = node_count s"
  "timer (status_update C s t ag rg) = timer s"
  "abs_gap (status_update C s t ag rg) = abs_gap s"
  "rel_gap (status_update C s t ag rg) = rel_gap s"
  "best_x (status_update C s t ag rg) = best_x s"
  by (simp_all add: status_update_def Let_def)

lemma lower_bound_update_fields:
  "queue (lower_bound_update s) = queue s"
  "best_ub (lower_bound_update s) = best_ub s"
  "best_x (lower_bound_update s) = best_x s"
  "node_count (lower_bound_update s) = node_count s"
  "status (lower_bound_update s) = status s"
  "start_time (lower_bound_update s) = start_time s"
  "timer (lower_bound_update s) = timer s"
  by (simp_all add: lower_bound_update_def split: list.splits)

lemma trace_update_fields:
  "queue (trace_update C s nd t) = queue s"
  "best_ub (trace_update C s nd t) = best_ub s"
  "best_lb (trace_update C s nd t) = best_lb s"
  "best_x (trace_update C s nd t) = best_x s"
  "node_count (trace_update C s nd t) = node_count s"
  "status (trace_update C s nd t) = status s"
  "timer (trace_update C s nd t) = timer s"
  "abs_gap (trace_update C s nd t) = abs_gap s"
  "rel_gap (trace_update C s nd t) = rel_gap s"
  by (simp_all add: trace_update_def)

lemma upper_bound_update_fields:
  assumes "upper_bound_update s nd xv ub = (s', nd', evs)"
  shows "node_count s' = node_count s" "status s' = status s" "start_time s' = start_time s"
    "timer s' = timer s" "n_lb nd' = n_lb nd"
  using assms by (auto simp: upper_bound_update_def Let_def split: if_splits)

lemma branching_operation_fields:
  assumes "branching_operation C P e s nd = Inr (e', s', evs)"
  shows "node_count s' = node_count s" "status s' = status s" "start_time s' = start_time s"
    "timer s' = timer s" "best_ub s' = best_ub s" "best_x s' = best_x s"
  using assms
  by (auto simp: branching_operation_def Let_def split: if_splits sum.splits prod.splits)

lemma visit_cases:
  assumes "visit C P e s nd0 = Inr (e', s', nd', evs)"
  obtains (pruned) nd1 where
      "lb_method_bound P e nd0 = (e', nd1)" "fgt (n_lb nd1) (best_ub s)"
      "s' = s" "nd' = nd1\<lparr>n_status := PRUNED\<rparr>" "evs = [Call_lb_bound, Set_status PRUNED]"
  | (expanded) e1 nd1 e2 xv ub ev_eval s3 ev_upd ev_br where
      "lb_method_bound P e nd0 = (e1, nd1)" "\<not> fgt (n_lb nd1) (best_ub s)"
      "upper_bound_evaluation C P e1 (nd1\<lparr>n_status := PROCESSED\<rparr>) = (e2, xv, ub, ev_eval)"
      "upper_bound_update s (nd1\<lparr>n_status := PROCESSED\<rparr>) xv ub = (s3, nd', ev_upd)"
      "branching_operation C P e2 s3 nd' = Inr (e', s', ev_br)"
      "evs = [Call_lb_bound, Set_status PROCESSED] @ ev_eval @ ev_upd @ ev_br"
  using assms unfolding visit_def
  by (auto simp: Let_def split: prod.splits if_splits sum.splits)

lemma visit_fields:
  assumes "visit C P e s nd0 = Inr (e', s', nd', evs)"
  shows "node_count s' = node_count s \<and> status s' = status s
    \<and> start_time s' = start_time s \<and> timer s' = timer s"
  using assms
proof (cases rule: visit_cases)
  case (pruned nd1)
  then show ?thesis by simp
next
  case (expanded e1 nd1 e2 xv ub ev_eval s3 ev_upd ev_br)
  from upper_bound_update_fields [OF expanded(4)] branching_operation_fields [OF expanded(5)]
  show ?thesis by simp
qed

lemma iteration_cases:
  assumes "iteration C P e s = Inr (e', s')"
  obtains e0 nd0 q0 e1 s1 nd evs rg now where
    "searching_rule_get_next C P e (queue s) = (e0, Inr (nd0, q0))"
    "visit C P e0 (s\<lparr>queue := q0\<rparr>) nd0 = Inr (e1, s1, nd, evs)"
    "BnB_rel_gap (best_ub s1) (best_lb (lower_bound_update s1)) = Inr rg"
    "time_time P e1 = (e', now)"
    "s' = (status_update C
            (trace_update C
              ((lower_bound_update s1)\<lparr>node_count := node_count s1 + 1,
                 abs_gap := Some (BnB_abs_gap (best_ub s1) (best_lb (lower_bound_update s1))),
                 rel_gap := Some rg, timer := Some (fsub now (start_time s1))\<rparr>)
              nd (fsub now (start_time s1)))
            (fsub now (start_time s1))
            (BnB_abs_gap (best_ub s1) (best_lb (lower_bound_update s1))) rg)
          \<lparr>node := Some nd, events := events s @ Call_get_next # evs @ [Call_time]\<rparr>"
  using assms unfolding iteration_def
  by (auto simp: Let_def lower_bound_update_fields split: prod.splits sum.splits)

lemmas ex_defs = ex_config_def ex_components_def initial_def iteration_def visit_def
  searching_rule_get_next_def py_min_key_def list_pop_def SearchingRule_add_def Node_init_def
  upper_bound_evaluation_def upper_bound_update_def branching_operation_def
  lower_bound_update_def trace_update_def status_update_def BnB_abs_gap_def BnB_rel_gap_def
  py_min2_def py_max2_def fgt_def fge_def Let_def

subsection \<open>The order on floats and the left-to-right scan\<close>

lemma flt_fle_total: "a \<noteq> NaN \<Longrightarrow> b \<noteq> NaN \<Longrightarrow> \<not> flt a b \<Longrightarrow> fle b a"
  by (cases a; cases b) auto

lemma flt_imp_fle: "flt a b \<Longrightarrow> fle a b"
  by (cases a; cases b) auto

lemma fle_refl: "a \<noteq> NaN \<Longrightarrow> fle a a"
  by (cases a) auto


lemma flt_fle_trans: "flt a b \<Longrightarrow> fle b c \<Longrightarrow> flt a c"
  by (cases a; cases b; cases c) auto

lemma py_min_scan_snoc:
  "py_min_scan f b (ys @ [y]) =
     (if flt (f y) (f (py_min_scan f b ys)) then y else py_min_scan f b ys)"
  by (induction ys arbitrary: b) simp_all

text \<open>The scan returns the leftmost element whose key is minimal.\<close>

lemma py_min_scan_leftmost_aux:
  assumes "zs = b # ys" and "\<forall>v \<in> set zs. f v \<noteq> NaN"
  shows "\<exists>i < length zs. py_min_scan f b ys = zs ! i
           \<and> (\<forall>j < length zs. fle (f (zs ! i)) (f (zs ! j)))
           \<and> (\<forall>j < i. flt (f (zs ! i)) (f (zs ! j)))"
  using assms
proof (induction ys arbitrary: zs rule: rev_induct)
  case Nil
  then show ?case by (simp add: fle_refl)
next
  case (snoc y ys)
  define us where "us = b # ys"
  have zs: "zs = us @ [y]" using snoc.prems(1) by (simp add: us_def)
  have "\<forall>v \<in> set us. f v \<noteq> NaN" using snoc.prems(2) zs by simp
  with snoc.IH [of us] us_def
  obtain i where i: "i < length us" "py_min_scan f b ys = us ! i"
    and le: "\<forall>j < length us. fle (f (us ! i)) (f (us ! j))"
    and lt: "\<forall>j < i. flt (f (us ! i)) (f (us ! j))"
    by blast
  have nth_old: "\<And>j. j < length us \<Longrightarrow> zs ! j = us ! j"
    by (simp add: zs nth_append)
  have nth_new: "zs ! length us = y"
    by (simp add: zs)
  have len: "length zs = Suc (length us)"
    by (simp add: zs)
  have fy: "f y \<noteq> NaN" and fi: "f (us ! i) \<noteq> NaN"
    using snoc.prems(2) i(1) zs by auto
  show ?case
  proof (cases "flt (f y) (f (us ! i))")
    case True
    have res: "py_min_scan f b (ys @ [y]) = zs ! length us"
      using True i(2) nth_new by (simp only: py_min_scan_snoc) simp
    have "\<forall>j < length zs. fle (f y) (f (zs ! j))"
    proof (intro allI impI)
      fix j assume "j < length zs"
      then consider "j < length us" | "j = length us" using len by linarith
      then show "fle (f y) (f (zs ! j))"
      proof cases
        case 1
        with le have "fle (f (us ! i)) (f (us ! j))" by blast
        with True have "flt (f y) (f (us ! j))" by (rule flt_fle_trans)
        then show ?thesis using 1 nth_old by (simp add: flt_imp_fle)
      next
        case 2
        then show ?thesis using nth_new fy by (simp add: fle_refl)
      qed
    qed
    moreover have "\<forall>j < length us. flt (f y) (f (zs ! j))"
    proof (intro allI impI)
      fix j assume j: "j < length us"
      with le have "fle (f (us ! i)) (f (us ! j))" by blast
      with True have "flt (f y) (f (us ! j))" by (rule flt_fle_trans)
      then show "flt (f y) (f (zs ! j))" using j nth_old by simp
    qed
    ultimately show ?thesis
      using nth_new res len by (intro exI [of _ "length us"]) simp
  next
    case False
    have res: "py_min_scan f b (ys @ [y]) = zs ! i"
      using False i nth_old by (simp only: py_min_scan_snoc) simp
    have ley: "fle (f (us ! i)) (f y)"
      using False fy fi by (simp add: flt_fle_total)
    have "\<forall>j < length zs. fle (f (zs ! i)) (f (zs ! j))"
    proof (intro allI impI)
      fix j assume "j < length zs"
      then consider "j < length us" | "j = length us" using len by linarith
      then show "fle (f (zs ! i)) (f (zs ! j))"
      proof cases
        case 1
        then show ?thesis using le i(1) nth_old by simp
      next
        case 2
        then show ?thesis using ley i(1) nth_old [of i] nth_new by simp
      qed
    qed
    moreover have "\<forall>j < i. flt (f (zs ! i)) (f (zs ! j))"
      using lt i(1) nth_old by simp
    ultimately show ?thesis
      using res i(1) len by (intro exI [of _ i]) simp
  qed
qed

lemma best_first_index:
  assumes "q \<noteq> []" and "\<forall>nd \<in> set q. n_lb nd \<noteq> NaN"
  shows "\<exists>i < length q. py_min_key (\<lambda>k. n_lb (q ! k)) [0..<length q] = Inr i
           \<and> (\<forall>j < length q. fle (n_lb (q ! i)) (n_lb (q ! j)))
           \<and> (\<forall>j < i. flt (n_lb (q ! i)) (n_lb (q ! j)))"
proof -
  from assms(1) have upt: "[0..<length q] = 0 # [Suc 0..<length q]"
    by (simp add: upt_conv_Cons)
  have nan: "\<forall>v \<in> set [0..<length q]. n_lb (q ! v) \<noteq> NaN"
    using assms(2) by simp
  from py_min_scan_leftmost_aux [OF upt nan]
  obtain i where i: "i < length [0..<length q]"
    and r: "py_min_scan (\<lambda>k. n_lb (q ! k)) 0 [Suc 0..<length q] = [0..<length q] ! i"
    and le: "\<forall>j < length [0..<length q].
               fle (n_lb (q ! ([0..<length q] ! i))) (n_lb (q ! ([0..<length q] ! j)))"
    and lt: "\<forall>j < i. flt (n_lb (q ! ([0..<length q] ! i))) (n_lb (q ! ([0..<length q] ! j)))"
    by blast
  from i have i': "i < length q" by simp
  have val: "[0..<length q] ! i = i" using i' by simp
  have "py_min_key (\<lambda>k. n_lb (q ! k)) [0..<length q] = Inr (py_min_scan (\<lambda>k. n_lb (q ! k)) 0 [Suc 0..<length q])"
    by (subst upt) (simp add: py_min_key_def)
  with r val have "py_min_key (\<lambda>k. n_lb (q ! k)) [0..<length q] = Inr i"
    by simp
  moreover have "\<forall>j < length q. fle (n_lb (q ! i)) (n_lb (q ! j))"
    using le i' by simp
  moreover have "\<forall>j < i. flt (n_lb (q ! i)) (n_lb (q ! j))"
    using lt i' by simp
  ultimately show ?thesis using i' by blast
qed

subsection \<open>The visit and the iteration always return\<close>

lemma upper_bound_update_events:
  assumes "upper_bound_update s nd xv ub = (s', nd', evs)"
  shows "evs = (if flt ub (best_ub s) then [Set_status FEASIBLE] else [])"
  using assms by (auto simp: upper_bound_update_def Let_def split: if_splits)

lemma branching_operation_events:
  assumes "branching_operation C P e s nd = Inr (e', s', evs)"
  shows "evs = [] \<or> evs = [Call_branch]"
  using assms
  by (auto simp: branching_operation_def Let_def split: if_splits sum.splits prod.splits)

lemma branching_operation_total: "\<exists>r. branching_operation C P e s nd = Inr r"
proof -
  obtain rg where "BnB_rel_gap (best_ub s) (n_lb nd) = Inr rg"
    using rel_gap_total by blast
  then show ?thesis
    by (simp add: branching_operation_def Let_def split: prod.splits)
qed

lemma visit_total: "\<exists>e' s' nd' evs. visit C P e s nd0 = Inr (e', s', nd', evs)"
proof -
  obtain e1 nd1 where b: "lb_method_bound P e nd0 = (e1, nd1)"
    by (cases "lb_method_bound P e nd0")
  show ?thesis
  proof (cases "fgt (n_lb nd1) (best_ub s)")
    case True
    with b show ?thesis by (simp add: visit_def)
  next
    case False
    obtain e2 xv ub ev_eval where
      ev: "upper_bound_evaluation C P e1 (nd1\<lparr>n_status := PROCESSED\<rparr>) = (e2, xv, ub, ev_eval)"
      by (metis prod_cases4)
    obtain s3 nd3 ev_upd where
      up: "upper_bound_update s (nd1\<lparr>n_status := PROCESSED\<rparr>) xv ub = (s3, nd3, ev_upd)"
      by (metis prod_cases3)
    obtain e4 s4 ev_br where "branching_operation C P e2 s3 nd3 = Inr (e4, s4, ev_br)"
      using branching_operation_total [of C P e2 s3 nd3] by (metis prod_cases3)
    with b False ev up show ?thesis by (simp add: visit_def)
  qed
qed

lemma iteration_total:
  assumes "searching_rule_get_next C P e (queue s) = (e0, Inr (nd0, q0))"
  shows "\<exists>e' s'. iteration C P e s = Inr (e', s')"
proof -
  obtain e1 s1 nd evs where v: "visit C P e0 (s\<lparr>queue := q0\<rparr>) nd0 = Inr (e1, s1, nd, evs)"
    using visit_total [of C P e0 "s\<lparr>queue := q0\<rparr>" nd0] by auto
  obtain rg where "BnB_rel_gap (best_ub (lower_bound_update s1)) (best_lb (lower_bound_update s1)) = Inr rg"
    using rel_gap_total by blast
  with assms v show ?thesis
    by (simp add: iteration_def Let_def split: prod.splits)
qed

text \<open>What an iteration that returns has done, field by field.\<close>

lemma iteration_result:
  assumes "iteration C P e s = Inr (e', s')"
  obtains e0 nd0 q0 e1 s1 nd evs rg now where
    "searching_rule_get_next C P e (queue s) = (e0, Inr (nd0, q0))"
    "visit C P e0 (s\<lparr>queue := q0\<rparr>) nd0 = Inr (e1, s1, nd, evs)"
    "time_time P e1 = (e', now)"
    "queue s' = queue s1" "best_ub s' = best_ub s1" "best_x s' = best_x s1"
    "best_lb s' = best_lb (lower_bound_update s1)"
    "node_count s' = node_count s + 1"
    "node s' = Some nd"
    "events s' = events s @ Call_get_next # evs @ [Call_time]"
    "timer s' = Some (fsub now (start_time s))"
    "abs_gap s' = Some (BnB_abs_gap (best_ub s') (best_lb s'))"
    "rel_gap s' = Some rg" "BnB_rel_gap (best_ub s') (best_lb s') = Inr rg"
    "start_time s' = start_time s"
  using assms
proof (cases rule: iteration_cases)
  case (1 e0 nd0 q0 e1 s1 nd evs rg now)
  from visit_fields [OF 1(2)]
  have vf: "node_count s1 = node_count s" "start_time s1 = start_time s" by simp_all
  show ?thesis
  proof (rule that [OF 1(1) 1(2) 1(4)])
    show "queue s' = queue s1" "best_ub s' = best_ub s1" "best_x s' = best_x s1"
      "best_lb s' = best_lb (lower_bound_update s1)" "node s' = Some nd"
      "events s' = events s @ Call_get_next # evs @ [Call_time]"
      "rel_gap s' = Some rg"
      using 1(5)
      by (simp_all add: status_update_fields trace_update_fields lower_bound_update_fields)
    show "node_count s' = node_count s + 1" "timer s' = Some (fsub now (start_time s))"
      using 1(5) vf
      by (simp_all add: status_update_fields trace_update_fields lower_bound_update_fields)
    show "abs_gap s' = Some (BnB_abs_gap (best_ub s') (best_lb s'))"
      "BnB_rel_gap (best_ub s') (best_lb s') = Inr rg"
      using 1(3) 1(5)
      by (simp_all add: status_update_fields trace_update_fields lower_bound_update_fields)
    show "start_time s' = start_time s"
      using 1(5) vf
      by (simp add: status_update_def trace_update_def Let_def lower_bound_update_fields)
  qed
qed

subsection \<open>The blocks of the visit\<close>

lemma upper_bound_evaluation_feasible:
  assumes "problem_is_feasible P e (n_x nd) (feas_tol C) = (e1, True)"
  shows "upper_bound_evaluation C P e nd = (e1, n_x nd, n_lb nd, [Call_is_feasible])"
  using assms by (simp add: upper_bound_evaluation_def)

lemma upper_bound_evaluation_infeasible:
  assumes "problem_is_feasible P e (n_x nd) (feas_tol C) = (e1, False)"
    and "ub_method_bound P e1 nd = (e2, xv)" and "problem_value P e2 xv = (e3, ub)"
  shows "upper_bound_evaluation C P e nd
           = (e3, xv, ub, [Call_is_feasible, Call_ub_bound, Call_value])"
  using assms by (simp add: upper_bound_evaluation_def)

lemma fgt_not_fle: "fgt a b \<Longrightarrow> \<not> fle a b"
  by (cases a; cases b) (auto simp: fgt_def)

lemma branching_operation_queue:
  assumes "branching_operation C P e s nd = Inr (e', s', evs)"
  shows "\<exists>kids. queue s' = queue s @ kids
           \<and> (kids = [] \<and> evs = [] \<and> e' = e \<or>
              branching_rule_branch P e nd = (e', kids) \<and> evs = [Call_branch]
              \<and> fgt (BnB_abs_gap (best_ub s) (n_lb nd)) (abs_gap_tol C))"
  using assms
  by (auto simp: branching_operation_def Let_def split: if_splits sum.splits prod.splits)


subsection \<open>The minimum over the queue\<close>

lemma py_min_scan_mem: "py_min_scan f b ys \<in> set (b # ys)"
  by (induction ys arbitrary: b) auto

lemma py_min_scan_least:
  assumes "NaN \<notin> set (b # ys)"
  shows "\<forall>v \<in> set (b # ys). fle (py_min_scan (\<lambda>a. a) b ys) v"
proof -
  have "\<forall>v \<in> set (b # ys). (\<lambda>a. a) v \<noteq> NaN" using assms by auto
  from py_min_scan_leftmost_aux [OF refl this]
  obtain i where "i < length (b # ys)" "py_min_scan (\<lambda>a. a) b ys = (b # ys) ! i"
    "\<forall>j < length (b # ys). fle ((b # ys) ! i) ((b # ys) ! j)"
    by blast
  then show ?thesis
    by (metis in_set_conv_nth)
qed

lemma rel_gap_zero: "BnB_rel_gap (Fin u) (Fin u) = Inr (Fin 0)"
proof -
  have "max (min \<bar>u\<bar> \<bar>u\<bar>) (1 / 10 ^ 16 :: real) \<noteq> 0"
    by (auto simp: max_def)
  then show ?thesis
    unfolding BnB_rel_gap_def by (simp add: py_min2_Fin py_max2_Fin)
qed

subsection \<open>The incumbent bounds the queue\<close>









lemma initial_fields:
  "best_ub (snd (initial C P e)) = PInf"
  "best_lb (snd (initial C P e)) = NInf"
  "node_count (snd (initial C P e)) = 0"
  "status (snd (initial C P e)) = RUNNING"
  "timer (snd (initial C P e)) = None"
  by (simp_all add: initial_def Let_def SearchingRule_add_def split: prod.splits)

lemma initial_queue: "\<exists>rg. queue (snd (initial C P e)) = [Node_init rg 0 None NInf]"
  by (auto simp: initial_def Let_def SearchingRule_add_def split: prod.splits)

subsection \<open>The main loop\<close>

lemma searching_rule_get_next_singleton:
  "\<exists>e0. searching_rule_get_next C P e [nd] = (e0, Inr (nd, []))"
  by (cases "searching_rule C")
     (auto simp: searching_rule_get_next_def py_min_key_def py_max_key_def list_pop_def
           split: prod.splits)

lemma iteration_stops:
  assumes "iteration C P e s = Inr (e', s')"
    and "node_limit C \<le> node_count s + 1
         \<or> (\<exists>t. timer s' = Some t \<and> fge t (time_limit C)) \<or> queue s' = []"
  shows "status s' \<noteq> RUNNING"
  using assms(1)
proof (cases rule: iteration_cases)
  case (1 e0 nd0 q0 e1 s1 nd evs rg now)
  from visit_fields [OF 1(2)] have "node_count s1 = node_count s" by simp
  with 1(5) assms(2) show ?thesis
    by (auto simp: status_update_precedence status_update_fields trace_update_fields
        lower_bound_update_fields)
qed

lemma main_loop_stopped:
  "status s \<noteq> RUNNING \<Longrightarrow> main_loop C P e s = Some (Inr (e, s))"
  by (subst main_loop.simps) simp

lemma main_loop_step:
  "status s = RUNNING \<Longrightarrow> iteration C P e s = Inr (e', s')
     \<Longrightarrow> main_loop C P e s = main_loop C P e' s'"
  by (subst main_loop.simps) simp

text \<open>The loop never decreases the node counter and never removes the timer.\<close>

lemma main_loop_counts:
  assumes "main_loop C P e s = Some r"
  shows "\<forall>e' s'. r = Inr (e', s') \<longrightarrow>
           node_count s \<le> node_count s' \<and> (timer s \<noteq> None \<longrightarrow> timer s' \<noteq> None)"
proof -
  have "(\<lambda>x r. \<forall>e' s'. r = Inr (e', s') \<longrightarrow>
           node_count (snd x) \<le> node_count s'
           \<and> (timer (snd x) \<noteq> None \<longrightarrow> timer s' \<noteq> None)) (((C, P), e), s) r"
  proof (rule main_loop.raw_induct [OF _ assms])
    fix loop C P e s r
    assume IH: "\<And>C P e s r. loop C P e s = Some r \<Longrightarrow>
                 \<forall>e' s'. r = Inr (e', s') \<longrightarrow>
                   node_count (snd (((C, P), e), s)) \<le> node_count s'
                   \<and> (timer (snd (((C, P), e), s)) \<noteq> None \<longrightarrow> timer s' \<noteq> None)"
      and body: "(if status s = RUNNING
                  then case iteration C P e s of
                         Inl err \<Rightarrow> Some (Inl err)
                       | Inr (e', s') \<Rightarrow> loop C P e' s'
                  else Some (Inr (e, s))) = Some r"
    show "\<forall>e' s'. r = Inr (e', s') \<longrightarrow>
            node_count (snd (((C, P), e), s)) \<le> node_count s'
            \<and> (timer (snd (((C, P), e), s)) \<noteq> None \<longrightarrow> timer s' \<noteq> None)"
    proof (cases "status s = RUNNING")
      case False
      with body show ?thesis by auto
    next
      case True
      show ?thesis
      proof (cases "iteration C P e s")
        case (Inl err)
        with True body show ?thesis by auto
      next
        case (Inr es)
        obtain e1 s1 where es: "es = (e1, s1)" by (cases es)
        with Inr True body have l: "loop C P e1 s1 = Some r" by simp
        from Inr es have it: "iteration C P e s = Inr (e1, s1)" by simp
        then have "node_count s1 = node_count s + 1" "timer s1 \<noteq> None"
          by (cases rule: iteration_result, simp)+
        with IH [OF l] show ?thesis by auto
      qed
    qed
  qed
  then show ?thesis by simp
qed

subsection \<open>The status of the visited node and of the queued nodes\<close>









section \<open>Termination precedence\<close>

text \<open>
  Claim C1. In every iteration of \<open>BnB.solve\<close> the six termination tests are made in the
  order time limit, node limit, queue limit, absolute gap, relative gap, queue empty, and a
  test that holds overwrites the status set by an earlier one. So the status after the
  iteration is decided by the last test that holds; in particular an empty queue gives
  OPTIMAL even when the time limit is exceeded in the same iteration.
\<close>

theorem termination_precedence:
  assumes "iteration C P e s = Inr (e', s')"
  shows "\<exists>t ag rg. timer s' = Some t \<and> abs_gap s' = Some ag \<and> rel_gap s' = Some rg
     \<and> status s' =
         (if queue s' = [] then OPTIMAL
          else if fle rg (rel_gap_tol C) then RELATIVE_OPTIMAL
          else if fle ag (abs_gap_tol C) then RELATIVE_OPTIMAL
          else if queue_limit C \<le> int (length (queue s')) then MEMORY_LIMIT
          else if node_limit C \<le> node_count s' then ITER_LIMIT
          else if fge t (time_limit C) then TIME_LIMIT
          else status s)
     \<and> (queue s' = [] \<and> fge t (time_limit C) \<longrightarrow> status s' = OPTIMAL)"
  using assms
proof (cases rule: iteration_cases)
  case (1 e0 nd0 q0 e1 s1 nd evs rg now)
  from visit_fields [OF 1(2)] have "status s1 = status s" by simp
  with 1(5) show ?thesis
    by (simp add: status_update_precedence status_update_fields trace_update_fields
        lower_bound_update_fields)
qed

theorem termination_precedence_witness:
  "\<exists>e' s'. iteration (ex_config (Fin 0)) (ex_components True n_lb) (Suc 0)
             (snd (initial (ex_config (Fin 0)) (ex_components True n_lb) 0)) = Inr (e', s')
     \<and> queue s' = [] \<and> timer s' = Some (Fin 1) \<and> fge (Fin 1) (time_limit (ex_config (Fin 0)))
     \<and> status s' = OPTIMAL"
proof -
  have "\<exists>e' s'. iteration (ex_config (Fin 0)) (ex_components True n_lb) (Suc 0)
             (snd (initial (ex_config (Fin 0)) (ex_components True n_lb) 0)) = Inr (e', s')
     \<and> queue s' = [] \<and> timer s' = Some (Fin 1)"
    by (simp add: ex_defs)
  then obtain e' s' where run: "iteration (ex_config (Fin 0)) (ex_components True n_lb) (Suc 0)
             (snd (initial (ex_config (Fin 0)) (ex_components True n_lb) 0)) = Inr (e', s')"
    and q: "queue s' = []" and t: "timer s' = Some (Fin 1)"
    by blast
  have lim: "fge (Fin 1) (time_limit (ex_config (Fin 0)))"
    by (simp add: ex_config_def fge_def)
  from termination_precedence [OF run] q t lim have "status s' = OPTIMAL"
    by auto
  with run q t lim show ?thesis by blast
qed

section \<open>Pruning\<close>

text \<open>
  Claim C2. In an iteration, when the lower bound of the dequeued node after the
  lower-bounding call is strictly greater than \<open>best_ub\<close>, the node is marked PRUNED and
  nothing else is done with it: the visit makes no further call (none to the branching
  rule) and leaves the queue and the incumbent as they were. Otherwise the node is marked
  PROCESSED right after the test, and it ends the iteration PROCESSED or FEASIBLE, never
  PRUNED.
\<close>

theorem pruning_test:
  assumes "searching_rule_get_next C P e (queue s) = (e0, Inr (nd0, q0))"
    and "lb_method_bound P e0 nd0 = (e1, nd1)"
  shows "(fgt (n_lb nd1) (best_ub s) \<longrightarrow>
            visit C P e0 (s\<lparr>queue := q0\<rparr>) nd0
              = Inr (e1, s\<lparr>queue := q0\<rparr>, nd1\<lparr>n_status := PRUNED\<rparr>,
                     [Call_lb_bound, Set_status PRUNED])
            \<and> (\<exists>e' s'. iteration C P e s = Inr (e', s')
                  \<and> node s' = Some (nd1\<lparr>n_status := PRUNED\<rparr>)
                  \<and> events s' = events s @
                       [Call_get_next, Call_lb_bound, Set_status PRUNED, Call_time]
                  \<and> queue s' = q0 \<and> best_ub s' = best_ub s \<and> best_x s' = best_x s))
       \<and> (\<not> fgt (n_lb nd1) (best_ub s) \<longrightarrow>
            (\<exists>e' s' nd rest. iteration C P e s = Inr (e', s')
                  \<and> node s' = Some nd
                  \<and> (n_status nd = PROCESSED \<or> n_status nd = FEASIBLE)
                  \<and> events s' = events s @
                       [Call_get_next, Call_lb_bound, Set_status PROCESSED] @ rest
                  \<and> Set_status PRUNED \<notin> set rest))"
proof -
  obtain e' s' where it: "iteration C P e s = Inr (e', s')"
    using iteration_total [OF assms(1)] by blast
  from it obtain e1' s1 nd evs where
    v: "visit C P e0 (s\<lparr>queue := q0\<rparr>) nd0 = Inr (e1', s1, nd, evs)"
    and q: "queue s' = queue s1" and ub: "best_ub s' = best_ub s1" and bx: "best_x s' = best_x s1"
    and n: "node s' = Some nd" and ev: "events s' = events s @ Call_get_next # evs @ [Call_time]"
    using assms(1) by (cases rule: iteration_result) simp
  show ?thesis
  proof (cases "fgt (n_lb nd1) (best_ub s)")
    case True
    have v': "visit C P e0 (s\<lparr>queue := q0\<rparr>) nd0
              = Inr (e1, s\<lparr>queue := q0\<rparr>, nd1\<lparr>n_status := PRUNED\<rparr>,
                     [Call_lb_bound, Set_status PRUNED])"
      using True assms(2) by (simp add: visit_def)
    with v q ub bx n ev it True show ?thesis by auto
  next
    case False
    from v show ?thesis
    proof (cases rule: visit_cases)
      case (pruned nd1')
      with assms(2) False show ?thesis by simp
    next
      case (expanded e1'' nd1' e2 xv ub' ev_eval s3 ev_upd ev_br)
      have st: "n_status nd = PROCESSED \<or> n_status nd = FEASIBLE"
        using expanded(4) by (auto simp: upper_bound_update_def Let_def split: if_splits)
      have a: "set ev_eval \<subseteq> {Call_is_feasible, Call_ub_bound, Call_value}"
        using expanded(3)
        by (auto simp: upper_bound_evaluation_def Let_def split: prod.splits if_splits)
      have b: "set ev_upd \<subseteq> {Set_status FEASIBLE}"
        using upper_bound_update_events [OF expanded(4)] by (auto split: if_splits)
      have c: "set ev_br \<subseteq> {Call_branch}"
        using branching_operation_events [OF expanded(5)] by auto
      have "Set_status PRUNED \<notin> set (ev_eval @ ev_upd @ ev_br @ [Call_time])"
        using a b c by auto
      moreover have "events s' = events s @
          [Call_get_next, Call_lb_bound, Set_status PROCESSED] @ (ev_eval @ ev_upd @ ev_br @ [Call_time])"
        using ev expanded(6) by simp
      ultimately show ?thesis using it n st False by blast
    qed
  qed
qed

theorem pruning_test_witness:
  "(\<exists>e' s'. iteration (ex_config PInf) (ex_components True n_lb) 1
        (ex_state (Fin 1) [Node_init () 1 None NInf]) = Inr (e', s')
      \<and> node s' = Some ((Node_init () 1 (Some 0) (Fin 5))\<lparr>n_status := PRUNED\<rparr>)
      \<and> events s' = [Call_get_next, Call_lb_bound, Set_status PRUNED, Call_time]
      \<and> queue s' = [] \<and> best_ub s' = Fin 1)
   \<and> (\<exists>e' s' nd rest. iteration (ex_config PInf) (ex_components True n_lb) 1
        (ex_state PInf [Node_init () 0 None NInf]) = Inr (e', s')
      \<and> node s' = Some nd \<and> (n_status nd = PROCESSED \<or> n_status nd = FEASIBLE)
      \<and> events s' = [Call_get_next, Call_lb_bound, Set_status PROCESSED] @ rest
      \<and> Set_status PRUNED \<notin> set rest)"
proof -
  let ?C = "ex_config PInf" and ?P = "ex_components True n_lb"
  let ?N = "Node_init () 1 None NInf :: (unit, int, unit) Node"
  let ?R = "Node_init () 0 None NInf :: (unit, int, unit) Node"
  have g1: "searching_rule_get_next ?C ?P 1 (queue (ex_state (Fin 1) [?N])) = (1, Inr (?N, []))"
    by (simp add: ex_defs ex_state_def)
  have b1: "lb_method_bound ?P 1 ?N = (1, Node_init () 1 (Some 0) (Fin 5))"
    by (simp add: ex_defs)
  have p1: "fgt (n_lb (Node_init () 1 (Some 0) (Fin 5) :: (unit, int, unit) Node))
              (best_ub (ex_state (Fin 1) [?N]))"
    by (simp add: ex_defs ex_state_def)
  have g2: "searching_rule_get_next ?C ?P 1 (queue (ex_state PInf [?R])) = (1, Inr (?R, []))"
    by (simp add: ex_defs ex_state_def)
  have b2: "lb_method_bound ?P 1 ?R = (1, Node_init () 0 (Some 0) (Fin 0))"
    by (simp add: ex_defs)
  have p2: "\<not> fgt (n_lb (Node_init () 0 (Some 0) (Fin 0) :: (unit, int, unit) Node))
              (best_ub (ex_state PInf [?R]))"
    by (simp add: ex_defs ex_state_def)
  have e1: "events (ex_state (Fin 1) [?N]) = []" "best_ub (ex_state (Fin 1) [?N]) = Fin 1"
    and e2: "events (ex_state PInf [?R]) = []"
    by (simp_all add: ex_defs ex_state_def)
  from pruning_test [OF g1 b1] p1 e1
  have "\<exists>e' s'. iteration ?C ?P 1 (ex_state (Fin 1) [?N]) = Inr (e', s')
      \<and> node s' = Some ((Node_init () 1 (Some 0) (Fin 5))\<lparr>n_status := PRUNED\<rparr>)
      \<and> events s' = [Call_get_next, Call_lb_bound, Set_status PRUNED, Call_time]
      \<and> queue s' = [] \<and> best_ub s' = Fin 1"
    by auto
  moreover from pruning_test [OF g2 b2] p2 e2
  have "\<exists>e' s' nd rest. iteration ?C ?P 1 (ex_state PInf [?R]) = Inr (e', s')
      \<and> node s' = Some nd \<and> (n_status nd = PROCESSED \<or> n_status nd = FEASIBLE)
      \<and> events s' = [Call_get_next, Call_lb_bound, Set_status PROCESSED] @ rest
      \<and> Set_status PRUNED \<notin> set rest"
    by auto
  ultimately show ?thesis by blast
qed

section \<open>Incumbent update\<close>

text \<open>
  Claim C3. In an iteration where the value of the candidate is strictly below \<open>best_ub\<close>,
  the node is marked FEASIBLE, the candidate point and its value become \<open>best_x\<close> and
  \<open>best_ub\<close>, and the queue is filtered at once: a queued node whose lower bound is
  strictly above the new \<open>best_ub\<close> is discarded, one whose lower bound is at most the new
  \<open>best_ub\<close> is kept. The children of the node, if it branches, are appended after that.
\<close>

theorem incumbent_update:
  assumes v: "visit C P e s nd0 = Inr (e', s', nd', evs)"
    and b: "lb_method_bound P e nd0 = (e1, nd1)"
    and np: "\<not> fgt (n_lb nd1) (best_ub s)"
    and ev: "upper_bound_evaluation C P e1 (nd1\<lparr>n_status := PROCESSED\<rparr>) = (e2, xv, ub, ev_eval)"
    and imp: "flt ub (best_ub s)"
  shows "n_status nd' = FEASIBLE \<and> best_x s' = xv \<and> best_ub s' = ub
     \<and> upper_bound_update s (nd1\<lparr>n_status := PROCESSED\<rparr>) xv ub
         = (s\<lparr>best_x := xv, best_ub := ub,
               queue := filter (\<lambda>qnode. fle (n_lb qnode) ub) (queue s)\<rparr>,
            nd1\<lparr>n_status := FEASIBLE\<rparr>, [Set_status FEASIBLE])
     \<and> (\<exists>kids. queue s' = filter (\<lambda>qnode. fle (n_lb qnode) ub) (queue s) @ kids
           \<and> (kids = [] \<or> (\<exists>e3. branching_rule_branch P e2 nd' = (e3, kids))))
     \<and> (\<forall>qnode \<in> set (queue s).
           (fgt (n_lb qnode) ub
              \<longrightarrow> qnode \<notin> set (filter (\<lambda>qnode. fle (n_lb qnode) ub) (queue s)))
         \<and> (fle (n_lb qnode) ub
              \<longrightarrow> qnode \<in> set (filter (\<lambda>qnode. fle (n_lb qnode) ub) (queue s))))"
  using v
proof (cases rule: visit_cases)
  case (pruned nd1')
  with b np show ?thesis by simp
next
  case (expanded e1' nd1' e2' xv' ub' ev_eval' s3 ev_upd ev_br)
  from expanded(1) b have eq: "e1' = e1" "nd1' = nd1" by simp_all
  with expanded(3) ev have eq2: "e2' = e2" "xv' = xv" "ub' = ub" by simp_all
  have upd: "upper_bound_update s (nd1\<lparr>n_status := PROCESSED\<rparr>) xv ub
         = (s\<lparr>best_x := xv, best_ub := ub,
               queue := filter (\<lambda>qnode. fle (n_lb qnode) ub) (queue s)\<rparr>,
            nd1\<lparr>n_status := FEASIBLE\<rparr>, [Set_status FEASIBLE])"
    using imp by (simp add: upper_bound_update_def Let_def)
  with expanded(4) eq eq2
  have s3: "s3 = s\<lparr>best_x := xv, best_ub := ub,
               queue := filter (\<lambda>qnode. fle (n_lb qnode) ub) (queue s)\<rparr>"
    and nd: "nd' = nd1\<lparr>n_status := FEASIBLE\<rparr>"
    by simp_all
  from branching_operation_fields [OF expanded(5)] s3
  have inc: "best_x s' = xv" "best_ub s' = ub" by simp_all
  from branching_operation_queue [OF expanded(5)] s3 eq2
  have q: "\<exists>kids. queue s' = filter (\<lambda>qnode. fle (n_lb qnode) ub) (queue s) @ kids
           \<and> (kids = [] \<or> (\<exists>e3. branching_rule_branch P e2 nd' = (e3, kids)))"
    by auto
  have "\<forall>qnode \<in> set (queue s).
           (fgt (n_lb qnode) ub
              \<longrightarrow> qnode \<notin> set (filter (\<lambda>qnode. fle (n_lb qnode) ub) (queue s)))
         \<and> (fle (n_lb qnode) ub
              \<longrightarrow> qnode \<in> set (filter (\<lambda>qnode. fle (n_lb qnode) ub) (queue s)))"
    by (auto dest: fgt_not_fle)
  with nd inc upd q show ?thesis by simp
qed

theorem incumbent_update_witness:
  "\<exists>e' s' nd' evs.
      visit (ex_config PInf) (ex_components False n_lb) 1
        (ex_state PInf [Node_init () 1 None (Fin (1 / 2)), Node_init () 1 None (Fin 3)])
        (Node_init () 0 None NInf) = Inr (e', s', nd', evs)
    \<and> flt (Fin 1) (best_ub (ex_state PInf
          [Node_init () 1 None (Fin (1 / 2)), Node_init () 1 None (Fin 3)]))
    \<and> n_status nd' = FEASIBLE \<and> best_x s' = Some 1 \<and> best_ub s' = Fin 1
    \<and> (\<exists>kids. queue s' = Node_init () 1 None (Fin (1 / 2)) # kids)
    \<and> Node_init () 1 None (Fin 3) \<notin> set (filter (\<lambda>qnode. fle (n_lb qnode) (Fin 1))
          (queue (ex_state PInf
             [Node_init () 1 None (Fin (1 / 2)), Node_init () 1 None (Fin 3)])))"
proof -
  let ?C = "ex_config PInf" and ?P = "ex_components False n_lb"
  let ?A = "Node_init () 1 None (Fin (1 / 2)) :: (unit, int, unit) Node"
  let ?B = "Node_init () 1 None (Fin 3) :: (unit, int, unit) Node"
  let ?R = "Node_init () 0 None NInf :: (unit, int, unit) Node"
  let ?R1 = "Node_init () 0 (Some 0) (Fin 0) :: (unit, int, unit) Node"
  let ?S = "ex_state PInf [?A, ?B]"
  obtain e' s' nd' evs where v: "visit ?C ?P 1 ?S ?R = Inr (e', s', nd', evs)"
    using visit_total [of ?C ?P 1 ?S ?R] by blast
  have b: "lb_method_bound ?P 1 ?R = (1, ?R1)"
    by (simp add: ex_defs)
  have np: "\<not> fgt (n_lb ?R1) (best_ub ?S)"
    by (simp add: ex_defs ex_state_def)
  have ev: "upper_bound_evaluation ?C ?P 1 (?R1\<lparr>n_status := PROCESSED\<rparr>)
              = (1, Some 1, Fin 1, [Call_is_feasible, Call_ub_bound, Call_value])"
    by (simp add: ex_defs)
  have imp: "flt (Fin 1) (best_ub ?S)"
    by (simp add: ex_defs ex_state_def)
  have q: "queue ?S = [?A, ?B]"
    by (simp add: ex_state_def)
  have fl: "filter (\<lambda>qnode. fle (n_lb qnode) (Fin 1)) [?A, ?B] = [?A]"
    by (simp add: Node_init_def)
  from incumbent_update [OF v b np ev imp]
  have "n_status nd' = FEASIBLE \<and> best_x s' = Some 1 \<and> best_ub s' = Fin 1
      \<and> (\<exists>kids. queue s' = ?A # kids)
      \<and> ?B \<notin> set (filter (\<lambda>qnode. fle (n_lb qnode) (Fin 1)) (queue ?S))"
    unfolding q fl by (auto simp: Node_init_def)
  with v imp show ?thesis by blast
qed

section \<open>The global lower bound\<close>

text \<open>
  Claim C4, as the code has it. At the end of every iteration \<open>best_lb\<close> is the result of
  \<open>min\<close> over the lower bounds of the queued nodes, which is their minimum when none is
  NaN, or \<open>best_ub\<close> when the queue is empty. With an empty queue and a finite \<open>best_ub\<close>
  both gaps are zero; with an empty queue and \<open>best_ub\<close> still \<open>+inf\<close> the absolute gap is
  \<open>inf - inf\<close>, which is NaN.
\<close>

theorem best_lb_recomputed:
  assumes "iteration C P e s = Inr (e', s')"
  shows "best_lb s' =
           (case queue s' of
              [] \<Rightarrow> best_ub s'
            | qnode # rest \<Rightarrow> py_min_scan (\<lambda>a. a) (n_lb qnode) (map n_lb rest))
     \<and> (queue s' \<noteq> [] \<and> NaN \<notin> set (map n_lb (queue s')) \<longrightarrow>
           best_lb s' \<in> set (map n_lb (queue s'))
         \<and> (\<forall>qnode \<in> set (queue s'). fle (best_lb s') (n_lb qnode)))
     \<and> (queue s' = [] \<longrightarrow> best_lb s' = best_ub s')
     \<and> (\<forall>u. queue s' = [] \<and> best_ub s' = Fin u \<longrightarrow>
           abs_gap s' = Some (Fin 0) \<and> rel_gap s' = Some (Fin 0))
     \<and> (queue s' = [] \<and> best_ub s' = PInf \<longrightarrow> abs_gap s' = Some NaN)"
  using assms
proof (cases rule: iteration_result)
  case (1 e0 nd0 q0 e1 s1 nd evs rg now)
  have lb: "best_lb s' =
           (case queue s' of
              [] \<Rightarrow> best_ub s'
            | qnode # rest \<Rightarrow> py_min_scan (\<lambda>a. a) (n_lb qnode) (map n_lb rest))"
    using 1(4,5,7) by (simp add: lower_bound_update_def split: list.splits)
  have least: "best_lb s' \<in> set (map n_lb (queue s'))
         \<and> (\<forall>qnode \<in> set (queue s'). fle (best_lb s') (n_lb qnode))"
    if ne: "queue s' \<noteq> []" and nan: "NaN \<notin> set (map n_lb (queue s'))"
  proof -
    from ne obtain qnode rest where q: "queue s' = qnode # rest" by (cases "queue s'") auto
    with lb have r: "best_lb s' = py_min_scan (\<lambda>a. a) (n_lb qnode) (map n_lb rest)" by simp
    have "NaN \<notin> set (n_lb qnode # map n_lb rest)" using nan q by simp
    from py_min_scan_least [OF this] py_min_scan_mem [of "\<lambda>a. a" "n_lb qnode" "map n_lb rest"]
    show ?thesis using r q by auto
  qed
  have empty: "best_lb s' = best_ub s'" if "queue s' = []"
    using lb that by simp
  have zero: "abs_gap s' = Some (Fin 0) \<and> rel_gap s' = Some (Fin 0)"
    if "queue s' = []" and "best_ub s' = Fin u" for u
  proof -
    from empty that have "best_lb s' = Fin u" by simp
    with that(2) 1(12,13,14) show ?thesis
      by (simp add: BnB_abs_gap_def rel_gap_zero)
  qed
  have nan: "abs_gap s' = Some NaN" if "queue s' = []" and "best_ub s' = PInf"
  proof -
    from empty that have "best_lb s' = PInf" by simp
    with that(2) 1(12) show ?thesis by (simp add: BnB_abs_gap_def)
  qed
  from lb least empty zero nan show ?thesis by blast
qed

theorem best_lb_recomputed_witness:
  "(\<exists>e' s'. iteration (ex_config (Fin 0)) (ex_components True n_lb) 1
        (snd (initial (ex_config (Fin 0)) (ex_components True n_lb) 0)) = Inr (e', s')
      \<and> queue s' = [] \<and> best_ub s' = Fin 0 \<and> best_lb s' = Fin 0
      \<and> abs_gap s' = Some (Fin 0) \<and> rel_gap s' = Some (Fin 0))
   \<and> (\<exists>e' s'. iteration (ex_config PInf) (ex_components False (\<lambda>nd. Fin 5)) 1
        (snd (initial (ex_config PInf) (ex_components False (\<lambda>nd. Fin 5)) 0)) = Inr (e', s')
      \<and> map n_lb (queue s') = [Fin 5] \<and> best_lb s' = Fin 5)"
proof -
  let ?C = "ex_config (Fin 0)" and ?P = "ex_components True n_lb"
  let ?D = "ex_config PInf" and ?Q = "ex_components False (\<lambda>nd. Fin 5)"
  have "\<exists>e' s'. iteration ?C ?P 1 (snd (initial ?C ?P 0)) = Inr (e', s')
      \<and> queue s' = [] \<and> best_ub s' = Fin 0"
    by (simp add: ex_defs)
  then obtain e' s' where run: "iteration ?C ?P 1 (snd (initial ?C ?P 0)) = Inr (e', s')"
    and q: "queue s' = []" and ub: "best_ub s' = Fin 0"
    by blast
  from best_lb_recomputed [OF run] q ub
  have "best_lb s' = Fin 0 \<and> abs_gap s' = Some (Fin 0) \<and> rel_gap s' = Some (Fin 0)"
    by simp
  with run q ub have first: "\<exists>e' s'. iteration ?C ?P 1 (snd (initial ?C ?P 0)) = Inr (e', s')
      \<and> queue s' = [] \<and> best_ub s' = Fin 0 \<and> best_lb s' = Fin 0
      \<and> abs_gap s' = Some (Fin 0) \<and> rel_gap s' = Some (Fin 0)"
    by blast
  have "\<exists>e' s'. iteration ?D ?Q 1 (snd (initial ?D ?Q 0)) = Inr (e', s')
      \<and> map n_lb (queue s') = [Fin 5]"
    by (simp add: ex_defs)
  then obtain e'' s'' where run2: "iteration ?D ?Q 1 (snd (initial ?D ?Q 0)) = Inr (e'', s'')"
    and q2: "map n_lb (queue s'') = [Fin 5]"
    by auto
  from q2 have "queue s'' \<noteq> []" "NaN \<notin> set (map n_lb (queue s''))" by auto
  with best_lb_recomputed [OF run2] have "best_lb s'' \<in> set (map n_lb (queue s''))"
    by blast
  with q2 have "best_lb s'' = Fin 5" by simp
  with run2 q2
  have second: "\<exists>e' s'. iteration ?D ?Q 1 (snd (initial ?D ?Q 0)) = Inr (e', s')
      \<and> map n_lb (queue s') = [Fin 5] \<and> best_lb s' = Fin 5"
    by auto
  from first second show ?thesis by (rule conjI)
qed

text \<open>
  The claim as stated fails twice. \<open>best_lb\<close> is not the minimum lower bound of the
  queue when a queued lower bound is NaN: on the instance whose root has children of
  lower bounds NaN and 1/2, the first iteration leaves both in the queue and sets
  \<open>best_lb\<close> to NaN, which is not below 1/2. The gap at exhaustion is not zero when no
  incumbent was found: on the instance whose candidates all have value \<open>+inf\<close>, the
  second iteration empties the queue and ends OPTIMAL with \<open>best_lb = best_ub = +inf\<close>
  and a NaN gap.
\<close>

theorem best_lb_not_minimum_gap_nan:
  "(case iteration (ex_config PInf) ex_nan_children 1
           (snd (initial (ex_config PInf) ex_nan_children 0)) of
      Inl err \<Rightarrow> False
    | Inr (e', s') \<Rightarrow>
        map n_lb (queue s') = [NaN, Fin (1 / 2)] \<and> best_lb s' = NaN
        \<and> \<not> fle (best_lb s') (Fin (1 / 2)))
   \<and> (case iterations (Suc (Suc 0)) (ex_config PInf) ex_no_incumbent 1
           (snd (initial (ex_config PInf) ex_no_incumbent 0)) of
      Inl err \<Rightarrow> False
    | Inr (e', s') \<Rightarrow>
        queue s' = [] \<and> status s' = OPTIMAL \<and> best_ub s' = PInf \<and> best_lb s' = PInf
        \<and> abs_gap s' = Some NaN \<and> abs_gap s' \<noteq> Some (Fin 0))"
proof (rule conjI)
  show "case iteration (ex_config PInf) ex_nan_children 1
           (snd (initial (ex_config PInf) ex_nan_children 0)) of
      Inl err \<Rightarrow> False
    | Inr (e', s') \<Rightarrow>
        map n_lb (queue s') = [NaN, Fin (1 / 2)] \<and> best_lb s' = NaN
        \<and> \<not> fle (best_lb s') (Fin (1 / 2))"
    by (simp add: ex_defs ex_nan_children_def)
  show "case iterations (Suc (Suc 0)) (ex_config PInf) ex_no_incumbent 1
           (snd (initial (ex_config PInf) ex_no_incumbent 0)) of
      Inl err \<Rightarrow> False
    | Inr (e', s') \<Rightarrow>
        queue s' = [] \<and> status s' = OPTIMAL \<and> best_ub s' = PInf \<and> best_lb s' = PInf
        \<and> abs_gap s' = Some NaN \<and> abs_gap s' \<noteq> Some (Fin 0)"
    by (simp add: ex_defs ex_no_incumbent_def)
qed

section \<open>Order of the two bounds\<close>




section \<open>The upper-bound candidate\<close>

text \<open>
  Claim C6. In an iteration whose node is not pruned, when the problem reports the node's
  point feasible within \<open>feas_tol\<close>, that point is the candidate, its value is the node's
  lower bound, and the upper-bounding method is not called. Otherwise the upper-bounding
  method is called once on the node, and the candidate is the point it returns with the
  problem's objective value at that point.
\<close>

theorem upper_bound_candidate:
  assumes b: "lb_method_bound P e nd0 = (e1, nd1)"
    and np: "\<not> fgt (n_lb nd1) (best_ub s)"
    and f: "problem_is_feasible P e1 (n_x nd1) (feas_tol C) = (e2, feas)"
  shows "\<exists>e' s' nd' evs. visit C P e s nd0 = Inr (e', s', nd', evs)
     \<and> (feas \<longrightarrow>
           upper_bound_evaluation C P e1 (nd1\<lparr>n_status := PROCESSED\<rparr>)
             = (e2, n_x nd1, n_lb nd1, [Call_is_feasible])
           \<and> Call_ub_bound \<notin> set evs
           \<and> (flt (n_lb nd1) (best_ub s) \<longrightarrow> best_x s' = n_x nd1 \<and> best_ub s' = n_lb nd1))
     \<and> (\<not> feas \<longrightarrow>
           (\<exists>e3 xv e4 ub.
               ub_method_bound P e2 (nd1\<lparr>n_status := PROCESSED\<rparr>) = (e3, xv)
             \<and> problem_value P e3 xv = (e4, ub)
             \<and> upper_bound_evaluation C P e1 (nd1\<lparr>n_status := PROCESSED\<rparr>)
                 = (e4, xv, ub, [Call_is_feasible, Call_ub_bound, Call_value])
             \<and> (flt ub (best_ub s) \<longrightarrow> best_x s' = xv \<and> best_ub s' = ub))
           \<and> count_list evs Call_ub_bound = 1)"
proof -
  obtain e' s' nd' evs where v: "visit C P e s nd0 = Inr (e', s', nd', evs)"
    using visit_total [of C P e s nd0] by blast
  from v show ?thesis
  proof (cases rule: visit_cases)
    case (pruned nd1')
    with b np show ?thesis by simp
  next
    case (expanded e1' nd1' e2' xv ub ev_eval s3 ev_upd ev_br)
    from expanded(1) b have eq: "e1' = e1" "nd1' = nd1" by simp_all
    have upd: "set ev_upd \<subseteq> {Set_status FEASIBLE}"
      using upper_bound_update_events [OF expanded(4)] by (auto split: if_splits)
    have br: "set ev_br \<subseteq> {Call_branch}"
      using branching_operation_events [OF expanded(5)] by auto
    have keep: "best_x s' = best_x s3" "best_ub s' = best_ub s3"
      using branching_operation_fields [OF expanded(5)] by simp_all
    have inc: "flt ub (best_ub s) \<Longrightarrow> best_x s3 = xv \<and> best_ub s3 = ub"
      using expanded(4) by (auto simp: upper_bound_update_def Let_def)
    show ?thesis
    proof (cases feas)
      case True
      with f have "upper_bound_evaluation C P e1 (nd1\<lparr>n_status := PROCESSED\<rparr>)
             = (e2, n_x nd1, n_lb nd1, [Call_is_feasible])"
        using upper_bound_evaluation_feasible [of P e1 "nd1\<lparr>n_status := PROCESSED\<rparr>" C e2]
        by simp
      moreover from this expanded(3) eq
      have "ev_eval = [Call_is_feasible]" "xv = n_x nd1" "ub = n_lb nd1" by simp_all
      moreover from this upd br expanded(6) have "Call_ub_bound \<notin> set evs" by auto
      ultimately show ?thesis using v True keep inc by auto
    next
      case False
      obtain e3 xv' where u: "ub_method_bound P e2 (nd1\<lparr>n_status := PROCESSED\<rparr>) = (e3, xv')"
        by (cases "ub_method_bound P e2 (nd1\<lparr>n_status := PROCESSED\<rparr>)")
      obtain e4 ub' where va: "problem_value P e3 xv' = (e4, ub')"
        by (cases "problem_value P e3 xv'")
      have ue: "upper_bound_evaluation C P e1 (nd1\<lparr>n_status := PROCESSED\<rparr>)
                 = (e4, xv', ub', [Call_is_feasible, Call_ub_bound, Call_value])"
        using upper_bound_evaluation_infeasible [of P e1 "nd1\<lparr>n_status := PROCESSED\<rparr>" C e2 e3 xv' e4 ub']
          f False u va by simp
      with expanded(3) eq
      have same: "ev_eval = [Call_is_feasible, Call_ub_bound, Call_value]" "xv = xv'" "ub = ub'"
        by simp_all
      have "count_list ev_upd Call_ub_bound = 0" "count_list ev_br Call_ub_bound = 0"
        using upd br by (auto simp: count_list_0_iff)
      with same expanded(6) have "count_list evs Call_ub_bound = 1" by simp
      with v False u va ue keep inc same show ?thesis by auto
    qed
  qed
qed

theorem upper_bound_candidate_witness:
  "(\<exists>e' s' nd' evs.
       visit (ex_config PInf) (ex_components True n_lb) 1 (ex_state PInf [])
         (Node_init () 0 None NInf) = Inr (e', s', nd', evs)
     \<and> Call_ub_bound \<notin> set evs \<and> best_x s' = Some 0 \<and> best_ub s' = Fin 0)
   \<and> (\<exists>e' s' nd' evs.
       visit (ex_config PInf) (ex_components False n_lb) 1 (ex_state PInf [])
         (Node_init () 0 None NInf) = Inr (e', s', nd', evs)
     \<and> count_list evs Call_ub_bound = 1 \<and> best_x s' = Some 1 \<and> best_ub s' = Fin 1)"
proof -
  let ?C = "ex_config PInf"
  let ?R = "Node_init () 0 None NInf :: (unit, int, unit) Node"
  let ?R1 = "Node_init () 0 (Some 0) (Fin 0) :: (unit, int, unit) Node"
  have b: "lb_method_bound (ex_components feas n_lb) 1 ?R = (1, ?R1)" for feas
    by (simp add: ex_defs)
  have np: "\<not> fgt (n_lb ?R1) (best_ub (ex_state PInf []))"
    by (simp add: ex_defs ex_state_def)
  have f: "problem_is_feasible (ex_components feas n_lb) 1 (n_x ?R1) (feas_tol ?C) = (1, feas)"
    for feas
    by (simp add: ex_defs)
  have imp: "flt (n_lb ?R1) (best_ub (ex_state PInf []))"
    by (simp add: ex_defs ex_state_def)
  have x: "n_x ?R1 = Some 0" "n_lb ?R1 = Fin 0"
    by (simp_all add: Node_init_def)
  from upper_bound_candidate [OF b np f, of True] imp x
  have "\<exists>e' s' nd' evs.
       visit ?C (ex_components True n_lb) 1 (ex_state PInf []) ?R = Inr (e', s', nd', evs)
     \<and> Call_ub_bound \<notin> set evs \<and> best_x s' = Some 0 \<and> best_ub s' = Fin 0"
    by auto
  moreover
  have u: "ub_method_bound (ex_components False n_lb) 1 (?R1\<lparr>n_status := PROCESSED\<rparr>)
             = (1, Some 1)"
    and va: "problem_value (ex_components False n_lb) 1 (Some 1) = (1, Fin 1)"
    and imp': "flt (Fin 1) (best_ub (ex_state PInf []))"
    by (simp_all add: ex_defs ex_state_def)
  from upper_bound_candidate [OF b np f, of False] u va imp'
  have "\<exists>e' s' nd' evs.
       visit ?C (ex_components False n_lb) 1 (ex_state PInf []) ?R = Inr (e', s', nd', evs)
     \<and> count_list evs Call_ub_bound = 1 \<and> best_x s' = Some 1 \<and> best_ub s' = Fin 1"
    by auto
  ultimately show ?thesis by blast
qed

section \<open>Best-first selection\<close>

text \<open>
  Claim C7, as the code has it. On a non-empty queue none of whose lower bounds is NaN,
  \<open>BestFirstSearch.get_next\<close> removes and returns a node of minimum lower bound, and among
  the nodes of minimum lower bound the one inserted first: every node before it in the
  queue has a strictly larger lower bound.
\<close>

theorem best_first_get_next:
  assumes "q \<noteq> []" and "\<forall>nd \<in> set q. n_lb nd \<noteq> NaN"
  shows "\<exists>i < length q.
           get_next BestFirstSearch r q = Inr (q ! i, take i q @ drop (Suc i) q)
           \<and> (\<forall>j < length q. fle (n_lb (q ! i)) (n_lb (q ! j)))
           \<and> (\<forall>j < i. flt (n_lb (q ! i)) (n_lb (q ! j)))"
proof -
  from best_first_index [OF assms]
  obtain i where "i < length q" "py_min_key (\<lambda>k. n_lb (q ! k)) [0..<length q] = Inr i"
    "\<forall>j < length q. fle (n_lb (q ! i)) (n_lb (q ! j))"
    "\<forall>j < i. flt (n_lb (q ! i)) (n_lb (q ! j))"
    by blast
  then show ?thesis
    by (intro exI [of _ i]) (simp add: list_pop_def)
qed

theorem best_first_get_next_witness:
  "ex_queue \<noteq> [] \<and> NaN \<notin> set (map n_lb ex_queue)
   \<and> get_next BestFirstSearch 0 ex_queue
       = Inr (ex_queue ! 1, [ex_queue ! 0, ex_queue ! 2, ex_queue ! 3])
   \<and> n_level (ex_queue ! 1) = 2 \<and> n_lb (ex_queue ! 1) = Fin 2"
proof -
  have ne: "ex_queue \<noteq> []"
    by (simp add: ex_queue_def)
  have nan: "\<forall>nd \<in> set ex_queue. n_lb nd \<noteq> NaN"
    by (simp add: ex_queue_def Node_init_def)
  have len: "length ex_queue = 4"
    by (simp add: ex_queue_def)
  have lbs: "n_lb (ex_queue ! 0) = Fin 5" "n_lb (ex_queue ! 1) = Fin 2"
    "n_lb (ex_queue ! 2) = Fin 8" "n_lb (ex_queue ! 3) = Fin 2"
    by (simp_all add: ex_queue_def Node_init_def)
  from best_first_get_next [OF ne nan, of 0]
  obtain i where i: "i < length ex_queue"
    and r: "get_next BestFirstSearch 0 ex_queue
              = Inr (ex_queue ! i, take i ex_queue @ drop (Suc i) ex_queue)"
    and le: "\<forall>j < length ex_queue. fle (n_lb (ex_queue ! i)) (n_lb (ex_queue ! j))"
    and lt: "\<forall>j < i. flt (n_lb (ex_queue ! i)) (n_lb (ex_queue ! j))"
    by blast
  from i len consider "i = 0" | "i = 1" | "i = 2" | "i = 3"
    by linarith
  then have "i = 1"
  proof cases
    case 1
    with le len have "fle (n_lb (ex_queue ! 0)) (n_lb (ex_queue ! 1))" by simp
    then show ?thesis using lbs by simp
  next
    case 2
    then show ?thesis .
  next
    case 3
    with le len have "fle (n_lb (ex_queue ! 2)) (n_lb (ex_queue ! 1))" by simp
    then show ?thesis using lbs by simp
  next
    case 4
    with lt have "flt (n_lb (ex_queue ! 3)) (n_lb (ex_queue ! 1))" by simp
    then show ?thesis using lbs by simp
  qed
  with r have "get_next BestFirstSearch 0 ex_queue
       = Inr (ex_queue ! 1, [ex_queue ! 0, ex_queue ! 2, ex_queue ! 3])"
    by (simp add: ex_queue_def)
  moreover have "n_level (ex_queue ! 1) = 2"
    by (simp add: ex_queue_def Node_init_def)
  moreover have "NaN \<notin> set (map n_lb ex_queue)"
    using nan by auto
  ultimately show ?thesis
    using ne lbs(2) by blast
qed


text \<open>
  The claim as stated, for every non-empty queue, fails when a lower bound is NaN. Every
  comparison with NaN is false, so the scan that starts on a NaN node keeps it: from the
  queue of lower bounds NaN, 1 the rule returns the NaN node, whose lower bound is not
  below that of the node it leaves in the queue.
\<close>

theorem best_first_nan_not_minimum:
  "ex_nan_queue \<noteq> []
   \<and> get_next BestFirstSearch 0 ex_nan_queue = Inr (ex_nan_queue ! 0, [ex_nan_queue ! 1])
   \<and> n_lb (ex_nan_queue ! 0) = NaN \<and> n_lb (ex_nan_queue ! 1) = Fin 1
   \<and> \<not> fle (n_lb (ex_nan_queue ! 0)) (n_lb (ex_nan_queue ! 1))"
  by (simp add: ex_nan_queue_def Node_init_def py_min_key_def list_pop_def)

section \<open>Status of a visited node\<close>




section \<open>The first iteration\<close>

text \<open>
  Claim C10. The node dequeued in the first iteration is never marked PRUNED, since
  \<open>best_ub\<close> is \<open>+inf\<close> and the test is strict. The first iteration always completes,
  with the node counter at 1, since the limits are only tested at its end. So a Result
  that \<open>solve\<close> returns has at least one iteration; and when the node limit is at most 1,
  or the timer of the first iteration has reached the time limit, \<open>solve\<close> does return,
  with exactly one iteration.
\<close>

theorem first_iteration_completes:
  "(\<exists>e1 s1 nd. iteration C P (fst (initial C P e)) (snd (initial C P e)) = Inr (e1, s1)
        \<and> node_count s1 = 1 \<and> node s1 = Some nd \<and> n_status nd \<noteq> PRUNED
        \<and> (node_limit C \<le> 1 \<or> (\<exists>t. timer s1 = Some t \<and> fge t (time_limit C))
             \<longrightarrow> (\<exists>res. BnB_solve C P e = Some (Inr res)
                    \<and> r_iterations res = 1)))
   \<and> (\<forall>res. BnB_solve C P e = Some (Inr res) \<longrightarrow> 1 \<le> r_iterations res)"
proof -
  obtain e0 s0 where init: "initial C P e = (e0, s0)" by (cases "initial C P e")
  then have s0: "best_ub s0 = PInf" "node_count s0 = 0" "status s0 = RUNNING"
    using initial_fields [of C P e] by simp_all
  obtain rg where q0: "queue s0 = [Node_init rg 0 None NInf]"
    using initial_queue [of C P e] init by auto
  obtain eg where g: "searching_rule_get_next C P e0 (queue s0)
                        = (eg, Inr (Node_init rg 0 None NInf, []))"
    using searching_rule_get_next_singleton [of C P e0 "Node_init rg 0 None NInf"] q0 by auto
  obtain e1 s1 where it: "iteration C P e0 s0 = Inr (e1, s1)"
    using iteration_total [OF g] by blast
  from it obtain eg' nd0 qr ex sx nd evs where
    vis: "visit C P eg' (s0\<lparr>queue := qr\<rparr>) nd0 = Inr (ex, sx, nd, evs)"
    and nc': "node_count s1 = node_count s0 + 1" and n: "node s1 = Some nd"
    and t': "timer s1 = Some (fsub (snd (time_time P ex)) (start_time s0))"
    by (cases rule: iteration_result) simp
  from nc' s0(2) have nc: "node_count s1 = 1" by simp
  from t' have t: "timer s1 \<noteq> None" by simp
  have np: "n_status nd \<noteq> PRUNED"
    using vis
  proof (cases rule: visit_cases)
    case (pruned nd1)
    with s0(1) show ?thesis by (simp add: fgt_def)
  next
    case (expanded e1' nd1 e2 xv ub ev_eval s3 ev_upd ev_br)
    from expanded(4) show ?thesis
      by (auto simp: upper_bound_update_def Let_def split: if_splits)
  qed
  have loop: "main_loop C P e0 s0 = main_loop C P e1 s1"
    using main_loop_step [OF s0(3) it] .
  have solve: "BnB_solve C P e =
      (case main_loop C P e1 s1 of
         None \<Rightarrow> None
       | Some (Inl err) \<Rightarrow> Some (Inl err)
       | Some (Inr (e5, s)) \<Rightarrow> Some (make_result s))"
    using init loop by (simp add: BnB_solve_def)
  have early: "\<exists>res. BnB_solve C P e = Some (Inr res) \<and> r_iterations res = 1"
    if "node_limit C \<le> 1 \<or> (\<exists>t. timer s1 = Some t \<and> fge t (time_limit C))"
  proof -
    from that s0(2) have "status s1 \<noteq> RUNNING"
      by (intro iteration_stops [OF it]) auto
    then have "main_loop C P e1 s1 = Some (Inr (e1, s1))"
      by (rule main_loop_stopped)
    with solve t nc show ?thesis
      by (auto simp: make_result_def)
  qed
  have late: "1 \<le> r_iterations res" if "BnB_solve C P e = Some (Inr res)" for res
  proof -
    from that solve obtain e5 s where m: "main_loop C P e1 s1 = Some (Inr (e5, s))"
      and r: "make_result s = Inr res"
      by (auto split: option.splits sum.splits)
    from main_loop_counts [OF m] nc t have "1 \<le> node_count s" by auto
    with r show ?thesis by (auto simp: make_result_def split: option.splits)
  qed
  from it nc n np early late init show ?thesis by auto
qed

theorem first_iteration_completes_witness:
  "node_limit ((ex_config PInf)\<lparr>node_limit := 0\<rparr>) \<le> 1
   \<and> (\<exists>res. BnB_solve ((ex_config PInf)\<lparr>node_limit := 0\<rparr>)
                      (ex_components False n_lb) 0 = Some (Inr res)
         \<and> r_iterations res = 1 \<and> 1 \<le> r_iterations res)
   \<and> fge (Fin 1) (time_limit (ex_config (Fin 0)))
   \<and> (\<exists>res. BnB_solve (ex_config (Fin 0)) (ex_components False n_lb) 0
                      = Some (Inr res)
         \<and> r_iterations res = 1)"
proof -
  let ?C = "(ex_config PInf)\<lparr>node_limit := 0\<rparr>" and ?P = "ex_components False n_lb"
  let ?D = "ex_config (Fin 0)"
  have lim: "node_limit ?C \<le> 1"
    by (simp add: ex_config_def)
  from first_iteration_completes [of ?C ?P 0] lim
  obtain res where r: "BnB_solve ?C ?P 0 = Some (Inr res)" "r_iterations res = 1"
    by blast
  from first_iteration_completes [of ?C ?P 0] r(1) have "1 \<le> r_iterations res"
    by blast
  with r have first: "\<exists>res. BnB_solve ?C ?P 0 = Some (Inr res)
         \<and> r_iterations res = 1 \<and> 1 \<le> r_iterations res"
    by blast
  have tl: "fge (Fin 1) (time_limit ?D)"
    by (simp add: ex_config_def fge_def)
  have "\<exists>e' s'. iteration ?D ?P (fst (initial ?D ?P 0)) (snd (initial ?D ?P 0)) = Inr (e', s')
          \<and> timer s' = Some (Fin 1)"
    by (simp add: ex_defs)
  then obtain e' s' where
    run: "iteration ?D ?P (fst (initial ?D ?P 0)) (snd (initial ?D ?P 0)) = Inr (e', s')"
    and t: "timer s' = Some (Fin 1)"
    by auto
  from first_iteration_completes [of ?D ?P 0] run t tl
  have second: "\<exists>res. BnB_solve ?D ?P 0 = Some (Inr res) \<and> r_iterations res = 1"
    by auto
  from lim first tl second show ?thesis by blast
qed

end
